theory Spec2Isabelle
  imports Main
begin

section \<open>Strings of the JavaScript runtime\<close>

text \<open>
  A JavaScript string is a sequence of UTF-16 code units. The model is \<open>string\<close>: every
  \<open>char\<close> stands for one code unit below 256 (the Latin-1 range), so \<open>length\<close> is the
  \<open>.length\<close> of the source and \<open>CHR 0xA0\<close> is the no-break space. All literals of the
  program (the keywords, the patterns and the messages) are in this range.
\<close>

definition code :: "char \<Rightarrow> nat" where
  \<comment> \<open>the code unit, \<open>charCodeAt\<close>\<close>
  "code c = of_char c"

definition is_space :: "char \<Rightarrow> bool" where
  \<comment> \<open>WhiteSpace and LineTerminator of ECMAScript below 256 (tab, line feed, vertical tab,
      form feed, carriage return, space, no-break space): what \<open>trim\<close>, \<open>\s\<close> and
      \<open>parseInt\<close> skip.\<close>
  "is_space c = ((9 \<le> code c \<and> code c \<le> 13) \<or> code c = 32 \<or> code c = 160)"

definition is_digit :: "char \<Rightarrow> bool" where
  \<comment> \<open>the class \<open>\d\<close>: \<open>0\<close> to \<open>9\<close>\<close>
  "is_digit c = (48 \<le> code c \<and> code c \<le> 57)"

definition is_word :: "char \<Rightarrow> bool" where
  \<comment> \<open>the class \<open>\w\<close>, which decides \<open>\b\<close>: \<open>a\<close> to \<open>z\<close>, \<open>A\<close> to \<open>Z\<close>, \<open>0\<close> to \<open>9\<close> and \<open>_\<close>\<close>
  "is_word c = ((97 \<le> code c \<and> code c \<le> 122) \<or> (65 \<le> code c \<and> code c \<le> 90) \<or>
                (48 \<le> code c \<and> code c \<le> 57) \<or> code c = 95)"

definition lower_char :: "char \<Rightarrow> char" where
  \<comment> \<open>below 256 the upper-case letters are \<open>A\<close> to \<open>Z\<close> and 0xC0 to 0xDE without 0xD7;
      the lower case of each is one unit, 32 above it.\<close>
  "lower_char c =
     (if (65 \<le> code c \<and> code c \<le> 90) \<or> (192 \<le> code c \<and> code c \<le> 222 \<and> code c \<noteq> 215)
      then char_of (code c + 32) else c)"

definition toLowerCase :: "string \<Rightarrow> string" where
  \<comment> \<open>\<open>String.prototype.toLowerCase\<close>\<close>
  "toLowerCase s = map lower_char s"

definition canonicalize :: "char \<Rightarrow> nat" where
  \<comment> \<open>Canonicalize of a regular expression with the \<open>i\<close> flag and without \<open>u\<close>: the code
      unit of the upper case of the character. Below 256 the lower-case letters with a
      one-unit upper case are \<open>a\<close> to \<open>z\<close> and 0xE0 to 0xFE without 0xF7 (32 below), 0xB5
      (upper case 0x39C) and 0xFF (upper case 0x178).\<close>
  "canonicalize c =
     (if (97 \<le> code c \<and> code c \<le> 122) \<or> (224 \<le> code c \<and> code c \<le> 254 \<and> code c \<noteq> 247)
      then code c - 32
      else if code c = 181 then 924
      else if code c = 255 then 376
      else code c)"

definition trim :: "string \<Rightarrow> string" where
  "trim s = rev (dropWhile is_space (rev (dropWhile is_space s)))"

definition startsWith :: "string \<Rightarrow> string \<Rightarrow> bool" where
  \<comment> \<open>\<open>s.startsWith(p)\<close>\<close>
  "startsWith s p = (take (length p) s = p)"

subsection \<open>Numbers and their text\<close>

text \<open>
  A number of the source is modelled as \<open>int option\<close>, \<open>None\<close> being \<open>NaN\<close>. The numbers of
  this program are row counts, offsets and limits; the model keeps them exact, as the
  source does up to \<open>2^53\<close>. The one number read from free text, the value of a clause
  \<open>LIMIT <integer>\<close>, is only compared with 100, and rounding a larger value does not
  change the smaller of the two.
\<close>

type_synonym number = "int option"

definition digit_value :: "char \<Rightarrow> int" where
  \<comment> \<open>the value of a digit of radix 10 or 16\<close>
  "digit_value c =
     (if 48 \<le> code c \<and> code c \<le> 57 then int (code c) - 48
      else if 97 \<le> code c \<and> code c \<le> 102 then int (code c) - 87
      else if 65 \<le> code c \<and> code c \<le> 70 then int (code c) - 55
      else 0)"

definition is_radix_digit :: "int \<Rightarrow> char \<Rightarrow> bool" where
  "is_radix_digit radix c =
     (if radix = 16
      then is_digit c \<or> (97 \<le> code c \<and> code c \<le> 102) \<or> (65 \<le> code c \<and> code c \<le> 70)
      else is_digit c)"

definition radix_value :: "int \<Rightarrow> string \<Rightarrow> int" where
  "radix_value radix ds = foldl (\<lambda>acc c. acc * radix + digit_value c) 0 ds"

definition parseInt :: "string \<Rightarrow> number" where
  \<comment> \<open>\<open>parseInt(s)\<close> with no radix argument: leading white space, a sign, an optional
      \<open>0x\<close>, then the longest run of digits; \<open>NaN\<close> when that run is empty.\<close>
  "parseInt input =
     (let s = dropWhile is_space input;
          sign = (if take 1 s = ''-'' then - 1 else 1);
          s1 = (if take 1 s = ''-'' \<or> take 1 s = ''+'' then drop 1 s else s);
          hex = (take 2 s1 = ''0x'' \<or> take 2 s1 = ''0X'');
          radix = (if hex then 16 else 10);
          s2 = (if hex then drop 2 s1 else s1);
          ds = takeWhile (is_radix_digit radix) s2
      in if ds = [] then None else Some (sign * radix_value radix ds))"

definition nth_opt :: "'a list \<Rightarrow> nat \<Rightarrow> 'a option" where
  \<comment> \<open>\<open>xs[i]\<close>: \<open>undefined\<close> (here \<open>None\<close>) out of range\<close>
  "nth_opt xs i = (if i < length xs then Some (xs ! i) else None)"

definition parseInt_arg :: "string option \<Rightarrow> number" where
  \<comment> \<open>\<open>parseInt\<close> of a value that may be \<open>undefined\<close>: the text \<open>undefined\<close> has no digits\<close>
  "parseInt_arg x = (case x of None \<Rightarrow> None | Some s \<Rightarrow> parseInt s)"

function show_nat :: "nat \<Rightarrow> string" where
  "show_nat n = (if n < 10 then [''0123456789'' ! n]
                 else show_nat (n div 10) @ [''0123456789'' ! (n mod 10)])"
  by pat_completeness auto
termination
  by (relation "measure id") auto

declare show_nat.simps [simp del]

definition show_number :: "number \<Rightarrow> string" where
  \<comment> \<open>the text of a number in a template literal\<close>
  "show_number x = (case x of None \<Rightarrow> ''NaN''
     | Some n \<Rightarrow> if n < 0 then ''-'' @ show_nat (nat (- n)) else show_nat (nat n))"

definition Math_min :: "number \<Rightarrow> number \<Rightarrow> number" where
  "Math_min x y = (case (x, y) of (Some a, Some b) \<Rightarrow> Some (min a b) | _ \<Rightarrow> None)"

section \<open>The regular expressions of the program\<close>

text \<open>
  The patterns of \<open>query.ts\<close> use literal characters, \<open>\b\<close>, \<open>\s+\<close>, \<open>\d+\<close>, one group
  and one alternation, all under the \<open>i\<close> flag. The matcher below is the backtracking
  matcher of ECMAScript on that fragment: a position in the input is a cursor (the
  characters before it, nearest first, and the characters from it on), and \<open>ends r c\<close>
  lists, in the order the matcher tries them, the cursors at which a match of \<open>r\<close> that
  starts at \<open>c\<close> can end, each with the text of the groups that took part.
\<close>

datatype cls = Space | Digit

datatype regex =
    Chars string
  | WordB
  | Plus cls
  | Group regex
  | Alt "regex list"
  | Seq regex regex

type_synonym cursor = "string \<times> string"

fun in_cls :: "cls \<Rightarrow> char \<Rightarrow> bool" where
  "in_cls Space c = is_space c"
| "in_cls Digit c = is_digit c"

fun word_at :: "string \<Rightarrow> bool" where
  "word_at [] = False"
| "word_at (c # cs) = is_word c"

fun plus_ends :: "cls \<Rightarrow> cursor \<Rightarrow> cursor list" where
  \<comment> \<open>greedy: the longest run first, then each shorter one, down to one character\<close>
  "plus_ends k (rb, []) = []"
| "plus_ends k (rb, c # cs) =
     (if in_cls k c then plus_ends k (c # rb, cs) @ [(c # rb, cs)] else [])"

fun ends :: "regex \<Rightarrow> cursor \<Rightarrow> (cursor \<times> string list) list" where
  "ends (Chars p) (rb, a) =
     (if length p \<le> length a \<and> map canonicalize (take (length p) a) = map canonicalize p
      then [((rev (take (length p) a) @ rb, drop (length p) a), [])] else [])"
| "ends WordB (rb, a) = (if word_at rb \<noteq> word_at a then [((rb, a), [])] else [])"
| "ends (Plus k) (rb, a) = map (\<lambda>e. (e, [])) (plus_ends k (rb, a))"
| "ends (Group r) (rb, a) =
     map (\<lambda>((rb', a'), caps). ((rb', a'), take (length a - length a') a # caps)) (ends r (rb, a))"
| "ends (Alt rs) (rb, a) = concat (map (\<lambda>r. ends r (rb, a)) rs)"
| "ends (Seq r1 r2) (rb, a) =
     concat (map (\<lambda>(c1, caps1). map (\<lambda>(c2, caps2). (c2, caps1 @ caps2)) (ends r2 c1))
                 (ends r1 (rb, a)))"

fun exec_from :: "regex \<Rightarrow> cursor \<Rightarrow> (cursor \<times> cursor \<times> string list) option" where
  \<comment> \<open>the leftmost start at which the pattern matches, with the first end the matcher finds\<close>
  "exec_from r (rb, a) =
     (case ends r (rb, a) of
        (e, caps) # _ \<Rightarrow> Some ((rb, a), e, caps)
      | [] \<Rightarrow> (case a of [] \<Rightarrow> None | c # cs \<Rightarrow> exec_from r (c # rb, cs)))"

declare exec_from.simps [simp del]

definition test :: "regex \<Rightarrow> string \<Rightarrow> bool" where
  \<comment> \<open>\<open>r.test(s)\<close> for a pattern without the \<open>g\<close> flag\<close>
  "test r s = (exec_from r ([], s) \<noteq> None)"

definition match_re :: "string \<Rightarrow> regex \<Rightarrow> string list option" where
  \<comment> \<open>\<open>s.match(r)\<close>: \<open>null\<close>, or the matched text followed by the groups\<close>
  "match_re s r = (case exec_from r ([], s) of None \<Rightarrow> None
     | Some ((rb, a), (rb', a'), caps) \<Rightarrow> Some (take (length a - length a') a # caps))"

definition replace :: "string \<Rightarrow> regex \<Rightarrow> string \<Rightarrow> string" where
  \<comment> \<open>\<open>s.replace(r, t)\<close> for a pattern without the \<open>g\<close> flag and a text \<open>t\<close> without \<open>$\<close>:
      the first match is replaced.\<close>
  "replace s r t = (case exec_from r ([], s) of None \<Rightarrow> s
     | Some ((rb, a), (rb', a'), caps) \<Rightarrow> rev rb @ t @ a')"

section \<open>Limit injection of \<open>postgres_execute_query\<close>\<close>

definition LIMIT_RE :: regex where
  \<comment> \<open>\<open>/\bLIMIT\s+\d+/i\<close>\<close>
  "LIMIT_RE = Seq WordB (Seq (Chars ''LIMIT'') (Seq (Plus Space) (Plus Digit)))"

definition LIMIT_GROUP_RE :: regex where
  \<comment> \<open>\<open>/\bLIMIT\s+(\d+)/i\<close>\<close>
  "LIMIT_GROUP_RE = Seq WordB (Seq (Chars ''LIMIT'') (Seq (Plus Space) (Group (Plus Digit))))"

definition safe_limit :: "int \<Rightarrow> int" where
  \<comment> \<open>\<open>Math.min(Math.max(1, limit), 100)\<close>\<close>
  "safe_limit limit = min (max 1 limit) 100"

definition inject_limit :: "string \<Rightarrow> int \<Rightarrow> string" where
  \<comment> \<open>\<open>query.ts\<close>, lines 87 to 99: the value of \<open>finalQuery\<close> after the \<open>if\<close>\<close>
  "inject_limit query limit =
     (let safeLimit = safe_limit limit;
          finalQuery = trim query;
          hasLimit = test LIMIT_RE finalQuery
      in if \<not> hasLimit then finalQuery @ '' LIMIT '' @ show_number (Some safeLimit)
         else (case match_re finalQuery LIMIT_GROUP_RE of
                 None \<Rightarrow> finalQuery
               | Some limitMatch \<Rightarrow>
                   let effectiveLimit = Math_min (parseInt_arg (nth_opt limitMatch 1)) (Some 100)
                   in replace finalQuery LIMIT_RE (''LIMIT '' @ show_number effectiveLimit)))"

section \<open>Errors, the database and the responses\<close>

text \<open>
  The source throws plain \<open>Error\<close> objects. The model names each throw site after the
  kind of failure it reports and keeps the message: \<open>PermissionDenied\<close> is thrown by
  \<open>assertSchemaAllowed\<close>, \<open>InvalidOperation\<close> by the checks of the free-form query,
  \<open>NotFound\<close> by the definition lookups, \<open>UpstreamFailure\<close> is an error of the driver and
  \<open>TypeError\<close> a read of a property of \<open>undefined\<close>.
\<close>

datatype error =
    PermissionDenied string
  | InvalidOperation string
  | NotFound string
  | UpstreamFailure string
  | TypeError string

datatype param = PString string | PNumber int

type_synonym statement = "string \<times> param list"

record 'r query_result =
  rows :: "'r list"
  field_names :: "string list"

text \<open>
  The pool is the external collaborator. \<open>db_query pool session stmt\<close> is what the
  database answers to \<open>stmt\<close> on a connection that has already run \<open>session\<close>: a result,
  or the message of the error the driver throws. \<open>pool.query\<close> runs every statement on a
  fresh connection. A row is opaque (\<open>'r\<close>); \<open>total_of\<close> reads the field \<open>total\<close> of a row
  of the count queries, a string by the annotation \<open>pool.query<{ total: string }>\<close>.
  Every operation returns its outcome together with the statements it sent, in order.
\<close>

record 'r pool =
  db_query :: "statement list \<Rightarrow> statement \<Rightarrow> string + 'r query_result"
  db_connect :: "string option"
  total_of :: "'r \<Rightarrow> string"

type_synonym 'a io = "(error + 'a) \<times> statement list"

definition io_return :: "'a \<Rightarrow> 'a io" where
  "io_return x = (Inr x, [])"

definition io_throw :: "error \<Rightarrow> 'a io" where
  "io_throw e = (Inl e, [])"

definition io_bind :: "'a io \<Rightarrow> ('a \<Rightarrow> 'b io) \<Rightarrow> 'b io" where
  "io_bind m f = (case m of
       (Inl e, t) \<Rightarrow> (Inl e, t)
     | (Inr x, t) \<Rightarrow> (case f x of (r, t') \<Rightarrow> (r, t @ t')))"

definition pool_query :: "'r pool \<Rightarrow> string \<Rightarrow> param list \<Rightarrow> 'r query_result io" where
  \<comment> \<open>\<open>await pool.query(text, params)\<close>\<close>
  "pool_query pool sql params =
     (case db_query pool [] (sql, params) of
        Inl msg \<Rightarrow> (Inl (UpstreamFailure msg), [(sql, params)])
      | Inr r \<Rightarrow> (Inr r, [(sql, params)]))"

definition client_query ::
  "'r pool \<Rightarrow> statement list \<Rightarrow> string \<Rightarrow> 'r query_result io" where
  \<comment> \<open>\<open>await client.query(text)\<close> on the connection that has run \<open>session\<close>\<close>
  "client_query pool session sql =
     (case db_query pool session (sql, []) of
        Inl msg \<Rightarrow> (Inl (UpstreamFailure msg), [(sql, [])])
      | Inr r \<Rightarrow> (Inr r, [(sql, [])]))"

datatype 'r jsvalue =
    JStr string
  | JNum number
  | JBool bool
  | JRow 'r
  | JArr "'r jsvalue list"
  | JObj "(string \<times> 'r jsvalue) list"

record content_item =
  content_type :: string
  content_text :: string

record McpToolResult =
  content :: "content_item list"

subsection \<open>\<open>utils/response.ts\<close>\<close>

definition CHARACTER_LIMIT :: nat where
  "CHARACTER_LIMIT = 25000"

definition NOTICE_HEAD :: string where
  "NOTICE_HEAD = [CHR 0x0A, CHR 0x0A] @ ''...[RESPUESTA TRUNCADA: ''"

definition NOTICE_TAIL :: string where
  "NOTICE_TAIL = '' chars totales. Usa filtros de columnas, cl'' @ [CHR 0xE1] @
     ''usula WHERE o paginaci'' @ [CHR 0xF3] @ ''n para reducir los resultados.]''"

definition formatResult :: "('d \<Rightarrow> string) \<Rightarrow> 'd \<Rightarrow> McpToolResult" where
  \<comment> \<open>\<open>stringify data\<close> is \<open>JSON.stringify(data, null, 2)\<close> of the runtime\<close>
  "formatResult stringify data =
     (let text = stringify data
      in if length text \<le> CHARACTER_LIMIT
         then \<lparr>content = [\<lparr>content_type = ''text'', content_text = text\<rparr>]\<rparr>
         else let truncated = take CHARACTER_LIMIT text
              in \<lparr>content = [\<lparr>content_type = ''text'',
                     content_text = truncated @ NOTICE_HEAD @ show_nat (length text) @ NOTICE_TAIL\<rparr>]\<rparr>)"

definition assertSchemaAllowed :: "string \<Rightarrow> string list \<Rightarrow> error + unit" where
  "assertSchemaAllowed schema allowedSchemas =
     (if length allowedSchemas > 0 \<and> \<not> List.member allowedSchemas schema
      then Inl (PermissionDenied (''Schema '' @ [CHR 0x27] @ schema @ [CHR 0x27] @
                  '' is not in the allowed schemas list''))
      else Inr ())"

subsection \<open>\<open>db/pool.ts\<close>\<close>

definition isSchemaAllowed :: "string list \<Rightarrow> string \<Rightarrow> bool" where
  \<comment> \<open>the module's \<open>allowedSchemas\<close> is the first argument\<close>
  "isSchemaAllowed allowedSchemas schema =
     (if length allowedSchemas = 0 then True else List.member allowedSchemas schema)"

definition io_assert :: "error + 'a \<Rightarrow> 'a io" where
  \<comment> \<open>a call that may throw and sends nothing\<close>
  "io_assert r = (r, [])"

definition respond :: "('d \<Rightarrow> string) \<Rightarrow> 'd io \<Rightarrow> McpToolResult io" where
  \<comment> \<open>\<open>return formatResult(data)\<close> at the end of a handler\<close>
  "respond stringify m = io_bind m (\<lambda>data. io_return (formatResult stringify data))"

section \<open>The handlers\<close>

text \<open>
  A handler runs after the SDK has checked its arguments against the tool's
  \<open>inputSchema\<close>, so its arguments are typed: a limit and an offset are integers, an
  optional argument is an \<open>option\<close>. Each handler is modelled in two steps: the object it
  builds (\<open>_data\<close>), and the handler, which returns \<open>formatResult\<close> of that object.
  Returning the connection of \<open>postgres_execute_query\<close> to the pool sends nothing to the
  database and is left out.
\<close>

subsection \<open>\<open>tools/introspection.ts\<close>: \<open>postgres_list_tables\<close>\<close>

definition COUNT_TABLES_SQL :: string where
  "COUNT_TABLES_SQL =
     ''SELECT COUNT(*) as total FROM information_schema.tables'' @ [CHR 0x0A] @
     ''         WHERE table_schema = $1 AND table_type = '' @ [CHR 0x27] @ ''BASE TABLE'' @
     [CHR 0x27]"

definition LIST_TABLES_SQL :: string where
  "LIST_TABLES_SQL =
     [CHR 0x0A] @ ''        SELECT'' @ [CHR 0x0A] @ ''          t.table_name,'' @ [CHR 0x0A] @
     ''          pg_catalog.obj_description(pgc.oid, '' @ [CHR 0x27] @ ''pg_class'' @
     [CHR 0x27] @ '') as table_description,'' @ [CHR 0x0A] @
     ''          (SELECT COUNT(*) FROM information_schema.columns c'' @ [CHR 0x0A] @
     ''           WHERE c.table_schema = t.table_schema AND c.table_name = t.table_name) as column_count'' @
     [CHR 0x0A] @ ''        FROM information_schema.tables t'' @ [CHR 0x0A] @
     ''        LEFT JOIN pg_catalog.pg_class pgc ON pgc.relname = t.table_name'' @ [CHR 0x0A] @
     ''        LEFT JOIN pg_catalog.pg_namespace pgn'' @ [CHR 0x0A] @
     ''          ON pgn.oid = pgc.relnamespace AND pgn.nspname = t.table_schema'' @
     [CHR 0x0A] @ ''        WHERE t.table_schema = $1 AND t.table_type = '' @ [CHR 0x27] @
     ''BASE TABLE'' @ [CHR 0x27, CHR 0x0A] @ ''        ORDER BY t.table_name'' @ [CHR 0x0A] @
     ''        LIMIT $2 OFFSET $3'' @ [CHR 0x0A] @ ''        ''"

definition gt :: "number \<Rightarrow> number \<Rightarrow> bool" where
  \<comment> \<open>\<open>x > y\<close> on numbers: false when either is \<open>NaN\<close>\<close>
  "gt x y = (case (x, y) of (Some a, Some b) \<Rightarrow> a > b | _ \<Rightarrow> False)"

definition postgres_list_tables_data ::
  "'r pool \<Rightarrow> string list \<Rightarrow> string \<Rightarrow> int \<Rightarrow> int \<Rightarrow> 'r jsvalue io" where
  "postgres_list_tables_data pool allowedSchemas schema limit offset =
     io_bind (io_assert (assertSchemaAllowed schema allowedSchemas)) (\<lambda>_.
     io_bind (pool_query pool COUNT_TABLES_SQL [PString schema]) (\<lambda>countResult.
       case rows countResult of
         [] \<Rightarrow> io_throw (TypeError ''Cannot read properties of undefined (reading 'total')'')
       | row0 # _ \<Rightarrow>
           let total = parseInt (total_of pool row0)
           in io_bind (pool_query pool LIST_TABLES_SQL
                         [PString schema, PNumber limit, PNumber offset]) (\<lambda>result.
                let count = int (length (rows result))
                in io_return (JObj (
                     [(''schema'', JStr schema),
                      (''tables'', JArr (map JRow (rows result))),
                      (''count'', JNum (Some count)),
                      (''total'', JNum total),
                      (''offset'', JNum (Some offset)),
                      (''has_more'', JBool (gt total (Some (offset + count))))] @
                     (if gt total (Some (offset + count))
                      then [(''next_offset'', JNum (Some (offset + count)))] else []))))))"

definition postgres_list_tables ::
  "'r pool \<Rightarrow> string list \<Rightarrow> ('r jsvalue \<Rightarrow> string) \<Rightarrow> string \<Rightarrow> int \<Rightarrow> int \<Rightarrow> McpToolResult io" where
  "postgres_list_tables pool allowedSchemas stringify schema limit offset =
     respond stringify (postgres_list_tables_data pool allowedSchemas schema limit offset)"

subsection \<open>\<open>tools/objects.ts\<close>: \<open>postgres_get_function_definition\<close>\<close>

definition FUNCTION_DEFINITION_SQL :: string where
  "FUNCTION_DEFINITION_SQL =
     [CHR 0x0A] @ ''        SELECT'' @ [CHR 0x0A] @ ''          p.proname as function_name,'' @
     [CHR 0x0A] @ ''          pg_catalog.pg_get_functiondef(p.oid) as definition,'' @
     [CHR 0x0A] @ ''          pg_catalog.obj_description(p.oid, '' @ [CHR 0x27] @ ''pg_proc'' @
     [CHR 0x27] @ '') as description'' @ [CHR 0x0A] @ ''        FROM pg_catalog.pg_proc p'' @
     [CHR 0x0A] @ ''        JOIN pg_catalog.pg_namespace n ON n.oid = p.pronamespace'' @
     [CHR 0x0A] @ ''        WHERE n.nspname = $1 AND p.proname = $2'' @ [CHR 0x0A] @
     ''        ''"

definition postgres_get_function_definition_data ::
  "'r pool \<Rightarrow> string list \<Rightarrow> string \<Rightarrow> string \<Rightarrow> 'r jsvalue io" where
  "postgres_get_function_definition_data pool allowedSchemas schema function_name =
     io_bind (io_assert (assertSchemaAllowed schema allowedSchemas)) (\<lambda>_.
     io_bind (pool_query pool FUNCTION_DEFINITION_SQL
                [PString schema, PString function_name]) (\<lambda>result.
       case rows result of
         [] \<Rightarrow> io_throw (NotFound (''Function '' @ [CHR 0x27] @ function_name @ [CHR 0x27] @
                   '' not found in schema '' @ [CHR 0x27] @ schema @ [CHR 0x27]))
       | row0 # _ \<Rightarrow> io_return (JRow row0)))"

definition postgres_get_function_definition ::
  "'r pool \<Rightarrow> string list \<Rightarrow> ('r jsvalue \<Rightarrow> string) \<Rightarrow> string \<Rightarrow> string \<Rightarrow> McpToolResult io" where
  "postgres_get_function_definition pool allowedSchemas stringify schema function_name =
     respond stringify
       (postgres_get_function_definition_data pool allowedSchemas schema function_name)"

subsection \<open>\<open>tools/query.ts\<close>: \<open>postgres_query_table\<close>\<close>

definition postgres_query_table_data ::
  "'r pool \<Rightarrow> string list \<Rightarrow> string \<Rightarrow> string \<Rightarrow> string \<Rightarrow> string option \<Rightarrow> int \<Rightarrow> 'r jsvalue io" where
  "postgres_query_table_data pool allowedSchemas schema table columns where_arg limit =
     io_bind (io_assert (assertSchemaAllowed schema allowedSchemas)) (\<lambda>_.
       let safeLimit = safe_limit limit;
           query0 = ''SELECT '' @ columns @ '' FROM \"'' @ schema @ ''\".\"'' @ table @ ''\"'';
           params0 = [];
           query1 = (case where_arg of
                       None \<Rightarrow> query0
                     | Some w \<Rightarrow> if w = [] then query0 else query0 @ '' WHERE '' @ w);
           query = query1 @ '' LIMIT $'' @ show_number (Some (int (length params0) + 1));
           params = params0 @ [PNumber safeLimit]
       in io_bind (pool_query pool query params) (\<lambda>result.
            io_return (JObj
              [(''schema'', JStr schema),
               (''table'', JStr table),
               (''query'', JStr query),
               (''rows'', JArr (map JRow (rows result))),
               (''row_count'', JNum (Some (int (length (rows result))))),
               (''limit'', JNum (Some safeLimit))])))"

definition postgres_query_table ::
  "'r pool \<Rightarrow> string list \<Rightarrow> ('r jsvalue \<Rightarrow> string) \<Rightarrow> string \<Rightarrow> string \<Rightarrow> string \<Rightarrow> string option \<Rightarrow> int
     \<Rightarrow> McpToolResult io" where
  "postgres_query_table pool allowedSchemas stringify schema table columns where_arg limit =
     respond stringify
       (postgres_query_table_data pool allowedSchemas schema table columns where_arg limit)"

subsection \<open>\<open>tools/query.ts\<close>: \<open>postgres_execute_query\<close>\<close>

definition forbiddenKeywords :: "string list" where
  "forbiddenKeywords = [''insert'', ''update'', ''delete'', ''drop'', ''alter'', ''create'',
     ''truncate'', ''grant'', ''revoke'', ''execute'', ''copy'']"

definition contextWords :: "string list" where
  \<comment> \<open>the alternatives of the group of the pattern, in its order\<close>
  "contextWords = [''into'', ''from'', ''table'', ''schema'', ''database'', ''index'',
     ''function'', ''procedure'', ''trigger'', ''role'', ''user'', ''privileges'', ''on'', ''all'']"

definition forbidden_re :: "string \<Rightarrow> regex" where
  \<comment> \<open>\<open>new RegExp(`\\b${keyword}\\b\\s+(into|from|...|on|all)\\b`, 'i')\<close>\<close>
  "forbidden_re keyword =
     Seq WordB (Seq (Chars keyword) (Seq WordB (Seq (Plus Space)
       (Seq (Group (Alt (map Chars contextWords))) WordB))))"

definition PREFIX_MESSAGE :: string where
  "PREFIX_MESSAGE =
     ''Solo se permiten consultas SELECT o WITH (CTE). No se permiten INSERT, UPDATE, DELETE, DROP, ALTER, CREATE u otras operaciones de modificaci'' @
     [CHR 0xF3] @ ''n.''"

definition keyword_message :: "string \<Rightarrow> string" where
  "keyword_message keyword =
     ''Operaci'' @ [CHR 0xF3] @ ''n no permitida: la query contiene '' @ [CHR 0x27] @ keyword @
     [CHR 0x27] @ '' seguido de un contexto de modificaci'' @ [CHR 0xF3] @
     ''n. Solo se permiten consultas de lectura (SELECT/WITH).''"

definition validate_query :: "string \<Rightarrow> error + unit" where
  \<comment> \<open>\<open>query.ts\<close>, lines 73 to 85: the two checks that throw\<close>
  "validate_query query =
     (let normalizedQuery = toLowerCase (trim query)
      in if \<not> startsWith normalizedQuery ''select'' \<and> \<not> startsWith normalizedQuery ''with''
         then Inl (InvalidOperation PREFIX_MESSAGE)
         else (case find (\<lambda>keyword. test (forbidden_re keyword) query) forbiddenKeywords of
                 Some keyword \<Rightarrow> Inl (InvalidOperation (keyword_message keyword))
               | None \<Rightarrow> Inr ()))"

definition join_strings :: "string \<Rightarrow> string list \<Rightarrow> string" where
  \<comment> \<open>\<open>xs.join(sep)\<close>\<close>
  "join_strings sep xs = (case xs of [] \<Rightarrow> [] | x # ys \<Rightarrow> x @ concat (map (\<lambda>y. sep @ y) ys))"

definition final_query :: "string \<Rightarrow> int \<Rightarrow> error + string" where
  \<comment> \<open>\<open>query.ts\<close>, lines 73 to 99: the value of \<open>finalQuery\<close> when the handler reaches the
      database, or the error thrown before\<close>
  "final_query query limit =
     (case validate_query query of
        Inl e \<Rightarrow> Inl e
      | Inr _ \<Rightarrow> Inr (inject_limit query limit))"

definition postgres_execute_query_data ::
  "'r pool \<Rightarrow> string list \<Rightarrow> string \<Rightarrow> int \<Rightarrow> 'r jsvalue io" where
  "postgres_execute_query_data pool allowedSchemas query limit =
     io_bind (io_assert (final_query query limit)) (\<lambda>finalQuery.
       (case db_connect pool of
          Some msg \<Rightarrow> io_throw (UpstreamFailure msg)
        | None \<Rightarrow>
            let timeout_sql = ''SET statement_timeout = 30000'';
                searchPath = join_strings '', '' (map (\<lambda>s. ''\"'' @ s @ ''\"'') allowedSchemas);
                path_sql = ''SET search_path = '' @ searchPath;
                session = [(timeout_sql, [])] @
                          (if length allowedSchemas > 0 then [(path_sql, [])] else [])
            in io_bind (client_query pool [] timeout_sql) (\<lambda>_.
               io_bind (if length allowedSchemas > 0
                        then io_bind (client_query pool [(timeout_sql, [])] path_sql)
                               (\<lambda>_. io_return ())
                        else io_return ()) (\<lambda>_.
               io_bind (client_query pool session finalQuery) (\<lambda>result.
                 io_return (JObj
                   [(''query'', JStr finalQuery),
                    (''rows'', JArr (map JRow (rows result))),
                    (''row_count'', JNum (Some (int (length (rows result))))),
                    (''fields'', JArr (map JStr (field_names result)))]))))))"

definition postgres_execute_query ::
  "'r pool \<Rightarrow> string list \<Rightarrow> ('r jsvalue \<Rightarrow> string) \<Rightarrow> string \<Rightarrow> int \<Rightarrow> McpToolResult io" where
  "postgres_execute_query pool allowedSchemas stringify query limit =
     respond stringify (postgres_execute_query_data pool allowedSchemas query limit)"

section \<open>What the specification says about the text of a query\<close>

text \<open>
  The definitions of this section do not model code. They state, on the text of a
  query, the notions the specification uses: a clause \<open>LIMIT <integer>\<close>, the clauses a
  statement contains with their values, the rewriting of the first clause, a forbidden
  keyword followed by a context word, and the occurrences of the word \<open>LIMIT\<close>, with which
  every LIMIT clause of a statement starts. The properties below compare the handler with
  them.
\<close>

definition matches_at :: "regex \<Rightarrow> string \<Rightarrow> nat \<Rightarrow> bool" where
  \<comment> \<open>the pattern matches at position \<open>n\<close> of the text\<close>
  "matches_at r s n = (ends r (rev (take n s), drop n s) \<noteq> [])"

definition limit_clause :: "string \<Rightarrow> string \<Rightarrow> string \<Rightarrow> string \<Rightarrow> string \<Rightarrow> bool" where
  \<comment> \<open>between \<open>pre\<close> and \<open>post\<close>, the text \<open>kw @ ws @ ds\<close> is a clause \<open>LIMIT <integer>\<close>: the
      keyword in any case at a word boundary, white space, and all the digits that follow\<close>
  "limit_clause pre kw ws ds post =
     (\<not> word_at (rev pre) \<and> map canonicalize kw = map canonicalize ''LIMIT'' \<and>
      ws \<noteq> [] \<and> list_all is_space ws \<and> ds \<noteq> [] \<and> list_all is_digit ds \<and>
      \<not> (post \<noteq> [] \<and> is_digit (hd post)))"




definition spec_limit_rewrite :: "string \<Rightarrow> string" where
  \<comment> \<open>the specification's words for a statement with a clause: the statement with the
      numeric value of the first clause replaced by the smaller of that value and 100,
      the rest of the text as it was\<close>
  "spec_limit_rewrite s =
     (case exec_from LIMIT_GROUP_RE ([], s) of
        None \<Rightarrow> s
      | Some ((rb, a), (rb', a'), caps) \<Rightarrow>
          rev rb @ take 5 a @ takeWhile is_space (drop 5 a) @
          show_number (Math_min (parseInt_arg (nth_opt caps 0)) (Some 100)) @ a')"

definition keyword_before_context :: "string \<Rightarrow> string \<Rightarrow> bool" where
  \<comment> \<open>the specification's words: the keyword occurs in \<open>s\<close> as a whole word, in any case,
      followed by white space and then by one of the context words, itself a whole word\<close>
  "keyword_before_context keyword s =
     (\<exists>pre kw ws ctx post.
         s = pre @ kw @ ws @ ctx @ post \<and>
         \<not> word_at (rev pre) \<and> map canonicalize kw = map canonicalize keyword \<and>
         ws \<noteq> [] \<and> list_all is_space ws \<and>
         (\<exists>w \<in> set contextWords. map canonicalize ctx = map canonicalize w) \<and>
         \<not> word_at post)"



section \<open>Matches of the two patterns, without the matcher\<close>

text \<open>
  What a match of each pattern at a cursor amounts to, read off the cursor itself. The
  proofs below show that the matcher finds exactly these matches.
\<close>

definition limit_at :: "cursor \<Rightarrow> bool" where
  \<comment> \<open>a clause \<open>LIMIT <integer>\<close> starts at the cursor\<close>
  "limit_at c = (case c of (rb, a) \<Rightarrow>
     word_at rb \<noteq> word_at a \<and> 5 \<le> length a \<and>
     map canonicalize (take 5 a) = map canonicalize ''LIMIT'' \<and>
     drop 5 a \<noteq> [] \<and> is_space (hd (drop 5 a)) \<and>
     dropWhile is_space (drop 5 a) \<noteq> [] \<and> is_digit (hd (dropWhile is_space (drop 5 a))))"

definition limit_digits :: "string \<Rightarrow> string" where
  \<comment> \<open>the digits of the clause that starts the text\<close>
  "limit_digits a = takeWhile is_digit (dropWhile is_space (drop 5 a))"

definition limit_end :: "cursor \<Rightarrow> cursor" where
  \<comment> \<open>the cursor after the clause that starts at the cursor\<close>
  "limit_end c = (case c of (rb, a) \<Rightarrow>
     (rev (takeWhile is_digit (dropWhile is_space (drop 5 a))) @
      rev (takeWhile is_space (drop 5 a)) @ rev (take 5 a) @ rb,
      dropWhile is_digit (dropWhile is_space (drop 5 a))))"

definition lettered :: "string \<Rightarrow> bool" where
  \<comment> \<open>a word of the patterns: not empty, every character a letter \<open>a\<close> to \<open>z\<close> or \<open>A\<close> to \<open>Z\<close>\<close>
  "lettered p = (p \<noteq> [] \<and> (\<forall>c \<in> set p. 65 \<le> canonicalize c \<and> canonicalize c \<le> 90))"

definition forbidden_at :: "string \<Rightarrow> cursor \<Rightarrow> bool" where
  \<comment> \<open>at the cursor: a word boundary, the keyword in any case, white space, a context word
      in any case, a word boundary\<close>
  "forbidden_at keyword c = (case c of (rb, a) \<Rightarrow>
     \<not> word_at rb \<and> length keyword \<le> length a \<and>
     map canonicalize (take (length keyword) a) = map canonicalize keyword \<and>
     drop (length keyword) a \<noteq> [] \<and> is_space (hd (drop (length keyword) a)) \<and>
     (\<exists>w \<in> set contextWords.
         length w \<le> length (dropWhile is_space (drop (length keyword) a)) \<and>
         map canonicalize (take (length w) (dropWhile is_space (drop (length keyword) a))) =
           map canonicalize w \<and>
         \<not> word_at (drop (length w) (dropWhile is_space (drop (length keyword) a)))))"

definition context_tail :: regex where
  \<comment> \<open>the end of the keyword pattern: \<open>(into|from|...|on|all)\b\<close>\<close>
  "context_tail = Seq (Group (Alt (map Chars contextWords))) WordB"

section \<open>Reading what a handler built\<close>

definition field_of :: "error + 'r jsvalue \<Rightarrow> string \<Rightarrow> 'r jsvalue option" where
  \<comment> \<open>the property \<open>k\<close> of the object a handler built; \<open>None\<close> when the object has no such
      property or the handler failed\<close>
  "field_of r k = (case r of Inr (JObj kvs) \<Rightarrow> map_of kvs k | _ \<Rightarrow> None)"

section \<open>Properties\<close>

subsection \<open>The monad of the handlers\<close>

lemma io_bind_throw: "io_bind (Inl e, t) f = (Inl e, t)"
  by (simp add: io_bind_def)

lemma io_bind_ok: "io_bind (Inr x, t) f = (fst (f x), t @ snd (f x))"
  by (simp add: io_bind_def split: prod.splits)

subsection \<open>The schema gate\<close>

text \<open>
  C3. With an empty list of allowed schemas the gate lets every schema through. With a
  non-empty list it lets a schema through exactly when the schema is an element of the
  list, compared as a whole string (no change of case, no prefix, no wildcard), and
  \<open>assertSchemaAllowed\<close> fails with \<open>PermissionDenied\<close> in every other case.
\<close>

theorem schema_gate_exact:
  "isSchemaAllowed allowed S = (allowed = [] \<or> S \<in> set allowed) \<and>
   assertSchemaAllowed S allowed =
     (if allowed = [] \<or> S \<in> set allowed then Inr ()
      else Inl (PermissionDenied (''Schema '' @ [CHR 0x27] @ S @ [CHR 0x27] @
                  '' is not in the allowed schemas list'')))"
  by (auto simp: isSchemaAllowed_def assertSchemaAllowed_def)

theorem schema_gate_exact_witness:
  "isSchemaAllowed [] ''sales'' \<and> isSchemaAllowed [''public'', ''sales''] ''sales'' \<and>
   \<not> isSchemaAllowed [''public'', ''sales''] ''Sales'' \<and>
   \<not> isSchemaAllowed [''public'', ''sales''] ''sale'' \<and>
   assertSchemaAllowed ''sales'' [] = Inr () \<and>
   assertSchemaAllowed ''pub'' [''public''] =
     Inl (PermissionDenied ''Schema 'pub' is not in the allowed schemas list'')"
  using schema_gate_exact [of "[]" "''sales''"]
    schema_gate_exact [of "[''public'', ''sales'']" "''sales''"]
    schema_gate_exact [of "[''public'', ''sales'']" "''Sales''"]
    schema_gate_exact [of "[''public'', ''sales'']" "''sale''"]
    schema_gate_exact [of "[''public'']" "''pub''"]
  by simp

lemma assert_allowed:
  "allowed = [] \<or> S \<in> set allowed \<Longrightarrow> assertSchemaAllowed S allowed = Inr ()"
  by (auto simp: assertSchemaAllowed_def)

lemma assert_denied:
  "allowed \<noteq> [] \<Longrightarrow> S \<notin> set allowed \<Longrightarrow>
   assertSchemaAllowed S allowed =
     Inl (PermissionDenied (''Schema '' @ [CHR 0x27] @ S @ [CHR 0x27] @
            '' is not in the allowed schemas list''))"
  by (auto simp: assertSchemaAllowed_def)

text \<open>
  C8. When the list of allowed schemas is not empty and does not hold the schema,
  \<open>postgres_query_table\<close> fails with \<open>PermissionDenied\<close> and has sent no statement to the
  database: the failure comes before the statement is built.
\<close>

theorem query_table_denied_before_sql:
  assumes "allowed \<noteq> []" and "S \<notin> set allowed"
  shows "postgres_query_table pool allowed stringify S table columns w limit =
           (Inl (PermissionDenied (''Schema '' @ [CHR 0x27] @ S @ [CHR 0x27] @
                  '' is not in the allowed schemas list'')), [])"
  using assms
  by (simp add: postgres_query_table_def postgres_query_table_data_def respond_def
      io_assert_def assert_denied io_bind_throw)

theorem query_table_denied_before_sql_witness:
  "postgres_query_table
     \<lparr>db_query = (\<lambda>session stmt. Inr \<lparr>rows = [''row''], field_names = []\<rparr>),
      db_connect = None, total_of = (\<lambda>r. r)\<rparr>
     [''sales''] (\<lambda>data. ''{}'') ''public'' ''users'' ''id,name'' None 10 =
     (Inl (PermissionDenied ''Schema 'public' is not in the allowed schemas list''), [])"
  using query_table_denied_before_sql [of "[''sales'']" "''public''"
      "\<lparr>db_query = (\<lambda>session stmt. Inr \<lparr>rows = [''row''], field_names = []\<rparr>),
        db_connect = None, total_of = (\<lambda>r. r)\<rparr>"
      "\<lambda>data. ''{}''" "''users''" "''id,name''" None 10]
  by simp

subsection \<open>Characters, digits and the text of numbers\<close>

lemma code_less: "code c < 256"
  by (simp add: code_def)

lemma digit_not_space: "is_digit c \<Longrightarrow> \<not> is_space c"
  by (auto simp: is_digit_def is_space_def)


lemma space_not_word: "is_space c \<Longrightarrow> \<not> is_word c"
  by (auto simp: is_space_def is_word_def)

lemma nat_less_10_cases:
  "(n::nat) < 10 \<Longrightarrow>
   n = 0 \<or> n = 1 \<or> n = 2 \<or> n = 3 \<or> n = 4 \<or> n = 5 \<or> n = 6 \<or> n = 7 \<or> n = 8 \<or> n = 9"
  by arith

lemma digit_char_is_digit: "n < 10 \<Longrightarrow> is_digit (''0123456789'' ! n)"
  by (drule nat_less_10_cases) (auto simp: is_digit_def code_def)

lemma digit_char_value: "n < 10 \<Longrightarrow> digit_value (''0123456789'' ! n) = int n"
  by (drule nat_less_10_cases) (auto simp: digit_value_def code_def)

lemma show_nat_nonempty: "show_nat n \<noteq> []"
  by (subst show_nat.simps) simp

lemma show_nat_digits: "c \<in> set (show_nat n) \<Longrightarrow> is_digit c"
proof (induction n arbitrary: c rule: show_nat.induct)
  case (1 n)
  show ?case
  proof (cases "n < 10")
    case True
    with "1.prems" show ?thesis
      by (subst (asm) show_nat.simps) (simp add: digit_char_is_digit)
  next
    case False
    with "1.prems" have "c \<in> set (show_nat (n div 10)) \<or> c = ''0123456789'' ! (n mod 10)"
      by (subst (asm) show_nat.simps) auto
    with False "1.IH" show ?thesis
      by (auto simp: digit_char_is_digit)
  qed
qed

lemma radix_value_snoc: "radix_value r (ds @ [d]) = radix_value r ds * r + digit_value d"
  by (simp add: radix_value_def)

lemma radix_value_show_nat: "radix_value 10 (show_nat n) = int n"
proof (induction n rule: show_nat.induct)
  case (1 n)
  show ?case
  proof (cases "n < 10")
    case True
    then show ?thesis
      by (subst show_nat.simps) (simp add: radix_value_def digit_char_value)
  next
    case False
    have "radix_value 10 (show_nat n) =
            radix_value 10 (show_nat (n div 10)) * 10 + digit_value (''0123456789'' ! (n mod 10))"
      using False by (subst show_nat.simps) (simp add: radix_value_snoc)
    also have "\<dots> = int (n div 10) * 10 + int (n mod 10)"
      using False "1.IH" by (simp add: digit_char_value)
    also have "\<dots> = int n"
      by (simp add: zdiv_int zmod_int)
    finally show ?thesis .
  qed
qed

lemma digit_value_nonneg: "0 \<le> digit_value c"
  by (simp add: digit_value_def)

lemma foldl_digits_nonneg:
  "0 \<le> acc \<Longrightarrow> 0 \<le> foldl (\<lambda>acc c. acc * 10 + digit_value c) acc ds"
proof (induction ds arbitrary: acc)
  case Nil then show ?case by simp
next
  case (Cons d ds)
  from Cons.prems digit_value_nonneg [of d] have "0 \<le> acc * 10 + digit_value d" by simp
  then show ?case using Cons.IH by simp
qed

lemma radix_value_nonneg: "0 \<le> radix_value 10 ds"
  using foldl_digits_nonneg [of 0 ds] by (simp add: radix_value_def)

lemma digit_not_sign:
  "is_digit c \<Longrightarrow>
   c \<noteq> CHR ''-'' \<and> c \<noteq> CHR ''+'' \<and> c \<noteq> CHR ''x'' \<and> c \<noteq> CHR ''X''"
  by (auto simp: is_digit_def code_def)

lemma parseInt_digits:
  assumes "ds \<noteq> []" and "\<forall>c \<in> set ds. is_digit c"
  shows "parseInt ds = Some (radix_value 10 ds)"
proof -
  obtain d rest where ds: "ds = d # rest" using assms(1) by (cases ds) auto
  have d: "is_digit d" using assms(2) ds by simp
  have nosp: "dropWhile is_space ds = ds"
    using d ds by (simp add: digit_not_space)
  have nosign: "take 1 ds \<noteq> ''-''" "take 1 ds \<noteq> ''+''"
    using digit_not_sign [OF d] ds by simp_all
  have nohex: "take 2 ds \<noteq> ''0x'' \<and> take 2 ds \<noteq> ''0X''"
  proof (cases rest)
    case Nil
    then show ?thesis using ds by simp
  next
    case (Cons e rest')
    then have "is_digit e" using assms(2) ds by simp
    from digit_not_sign [OF this] show ?thesis using ds Cons by simp
  qed
  have tw: "takeWhile (is_radix_digit 10) ds = ds"
    using assms(2) by (simp add: is_radix_digit_def takeWhile_eq_all_conv)
  have "parseInt ds = (if takeWhile (is_radix_digit 10) ds = [] then None
          else Some (1 * radix_value 10 (takeWhile (is_radix_digit 10) ds)))"
    unfolding parseInt_def Let_def nosp using nosign nohex by simp
  then show ?thesis
    using assms(1) by (simp add: tw)
qed

lemma parseInt_show_nat: "parseInt (show_nat n) = Some (int n)"
  using parseInt_digits [of "show_nat n"] show_nat_nonempty [of n] show_nat_digits [of _ n]
    radix_value_show_nat [of n]
  by simp

lemma show_nat_25001: "show_nat 25001 = ''25001''"
  by (simp add: show_nat.simps)

subsection \<open>The result packager\<close>

text \<open>
  C4, as the code has it. A serialization of at most 25000 characters is returned as it
  is. A longer one is cut to its first 25000 characters, followed by the notice, which
  holds the decimal text of the full length between two fixed texts; the length of the
  output is 25000, plus the length of the two fixed texts, plus the number of digits of
  the full length. The result is a single text item: it has no separate flag that says
  whether it was cut.
\<close>

theorem format_result_truncation:
  "(length (stringify data) \<le> 25000 \<longrightarrow>
      formatResult stringify data =
        \<lparr>content = [\<lparr>content_type = ''text'', content_text = stringify data\<rparr>]\<rparr>) \<and>
   (25000 < length (stringify data) \<longrightarrow>
      formatResult stringify data =
        \<lparr>content = [\<lparr>content_type = ''text'',
           content_text = take 25000 (stringify data) @ NOTICE_HEAD @
             show_nat (length (stringify data)) @ NOTICE_TAIL\<rparr>]\<rparr> \<and>
      parseInt (show_nat (length (stringify data))) = Some (int (length (stringify data))) \<and>
      length (take 25000 (stringify data) @ NOTICE_HEAD @
             show_nat (length (stringify data)) @ NOTICE_TAIL) =
        25000 + length (NOTICE_HEAD @ NOTICE_TAIL) + length (show_nat (length (stringify data))))"
  by (simp add: formatResult_def CHARACTER_LIMIT_def Let_def parseInt_show_nat)

theorem format_result_truncation_witness:
  "formatResult (\<lambda>s. [CHR 0x22] @ s @ [CHR 0x22]) ''abc'' =
     \<lparr>content = [\<lparr>content_type = ''text'', content_text = [CHR 0x22] @ ''abc'' @ [CHR 0x22]\<rparr>]\<rparr> \<and>
   formatResult (\<lambda>s. [CHR 0x22] @ s @ [CHR 0x22]) (replicate 24999 (CHR ''a'')) =
     \<lparr>content = [\<lparr>content_type = ''text'',
        content_text = take 25000 ([CHR 0x22] @ replicate 24999 (CHR ''a'') @ [CHR 0x22]) @
          NOTICE_HEAD @ ''25001'' @ NOTICE_TAIL\<rparr>]\<rparr>"
  using format_result_truncation [of "\<lambda>s. [CHR 0x22] @ s @ [CHR 0x22]" "''abc''"]
    format_result_truncation [of "\<lambda>s. [CHR 0x22] @ s @ [CHR 0x22]" "replicate 24999 (CHR ''a'')"]
  by (simp add: show_nat_25001)

text \<open>
  The bound of C4 as the specification states it, 25000 plus the length of the fixed text
  of the notice, fails: the serialization of a string of 24999 letters has 25001
  characters, and the output is longer than that bound by the five digits of 25001.
\<close>

theorem format_result_bound_counterexample:
  "length (content_text (hd (content (formatResult (\<lambda>s. [CHR 0x22] @ s @ [CHR 0x22])
       (replicate 24999 (CHR ''a'')))))) > 25000 + length (NOTICE_HEAD @ NOTICE_TAIL)"
  by (simp add: formatResult_def CHARACTER_LIMIT_def Let_def show_nat_25001)

subsection \<open>Definition lookup\<close>

text \<open>
  C9. For an allowed schema, \<open>postgres_get_function_definition\<close> answers an error of the
  driver with that error, no row with \<open>NotFound\<close> (the message names the function and the
  schema), and one or more rows with the first row, formatted. So it fails with
  \<open>NotFound\<close> exactly when the lookup returned no row, and a success always carries a row.
\<close>

theorem function_definition_not_found:
  assumes "allowed = [] \<or> S \<in> set allowed"
  shows "fst (postgres_get_function_definition pool allowed stringify S f) =
     (case db_query pool [] (FUNCTION_DEFINITION_SQL, [PString S, PString f]) of
        Inl msg \<Rightarrow> Inl (UpstreamFailure msg)
      | Inr result \<Rightarrow>
          (case rows result of
             [] \<Rightarrow> Inl (NotFound (''Function '' @ [CHR 0x27] @ f @ [CHR 0x27] @
                         '' not found in schema '' @ [CHR 0x27] @ S @ [CHR 0x27]))
           | row0 # _ \<Rightarrow> Inr (formatResult stringify (JRow row0))))
    \<and> ((\<exists>m. fst (postgres_get_function_definition pool allowed stringify S f) = Inl (NotFound m))
        = (\<exists>result. db_query pool [] (FUNCTION_DEFINITION_SQL, [PString S, PString f]) = Inr result
              \<and> rows result = []))"
  using assms
  by (auto simp: postgres_get_function_definition_def postgres_get_function_definition_data_def
      respond_def io_assert_def assert_allowed io_bind_ok io_bind_throw pool_query_def
      io_throw_def io_return_def split: sum.splits list.splits)

theorem function_definition_not_found_witness:
  "fst (postgres_get_function_definition
          \<lparr>db_query = (\<lambda>session stmt. Inr \<lparr>rows = [], field_names = []\<rparr>), db_connect = None,
           total_of = (\<lambda>r. r)\<rparr> [''public''] (\<lambda>data. ''{}'') ''public'' ''f'') =
     Inl (NotFound (''Function 'f' not found in schema 'public'' @ [CHR 0x27])) \<and>
   fst (postgres_get_function_definition
          \<lparr>db_query = (\<lambda>session stmt. Inr \<lparr>rows = [''body1'', ''body2''], field_names = []\<rparr>),
           db_connect = None, total_of = (\<lambda>r. r)\<rparr> [''public''] (\<lambda>data. ''{}'') ''public'' ''f'') =
     Inr (formatResult (\<lambda>data. ''{}'') (JRow ''body1''))"
  using function_definition_not_found [of "[''public'']" "''public''"
      "\<lparr>db_query = (\<lambda>session stmt. Inr \<lparr>rows = [], field_names = []\<rparr>), db_connect = None,
           total_of = (\<lambda>r. r)\<rparr>" "\<lambda>data. ''{}''" "''f''"]
    function_definition_not_found [of "[''public'']" "''public''"
      "\<lparr>db_query = (\<lambda>session stmt. Inr \<lparr>rows = [''body1'', ''body2''], field_names = []\<rparr>),
           db_connect = None, total_of = (\<lambda>r. r)\<rparr>" "\<lambda>data. ''{}''" "''f''"]
  by simp

subsection \<open>The prefix check of the free-form query\<close>

text \<open>
  C5. When the trimmed, lower-cased query starts neither with \<open>select\<close> nor with \<open>with\<close>,
  validation fails with \<open>InvalidOperation\<close>, the message names \<open>SELECT\<close> and \<open>WITH\<close>, and
  \<open>postgres_execute_query\<close> has sent no statement to the database.
\<close>

theorem prefix_check_rejects:
  assumes "\<not> startsWith (toLowerCase (trim q)) ''select''"
    and "\<not> startsWith (toLowerCase (trim q)) ''with''"
  shows "validate_query q = Inl (InvalidOperation PREFIX_MESSAGE) \<and>
         postgres_execute_query pool allowed stringify q limit =
           (Inl (InvalidOperation PREFIX_MESSAGE), []) \<and>
         take 47 PREFIX_MESSAGE = ''Solo se permiten consultas SELECT o WITH (CTE).''"
  using assms
  by (simp add: validate_query_def final_query_def postgres_execute_query_def
      postgres_execute_query_data_def respond_def io_assert_def io_bind_throw
      PREFIX_MESSAGE_def)

theorem prefix_check_rejects_witness:
  "validate_query ''  UPDATE t SET a = 1'' = Inl (InvalidOperation PREFIX_MESSAGE) \<and>
   postgres_execute_query
     \<lparr>db_query = (\<lambda>session stmt. Inr \<lparr>rows = [''row''], field_names = []\<rparr>),
      db_connect = None, total_of = (\<lambda>r. r)\<rparr>
     [] (\<lambda>data. ''{}'') ''  UPDATE t SET a = 1'' 5 =
       (Inl (InvalidOperation PREFIX_MESSAGE), [])"
proof -
  have a: "\<not> startsWith (toLowerCase (trim ''  UPDATE t SET a = 1'')) ''select''"
    by code_simp
  have b: "\<not> startsWith (toLowerCase (trim ''  UPDATE t SET a = 1'')) ''with''"
    by code_simp
  show ?thesis
    using prefix_check_rejects [OF a b,
        of "\<lparr>db_query = (\<lambda>session stmt. Inr \<lparr>rows = [''row''], field_names = []\<rparr>),
             db_connect = None, total_of = (\<lambda>r. r)\<rparr>" "[]" "\<lambda>data. ''{}''" 5]
    by simp
qed

subsection \<open>Pagination of \<open>postgres_list_tables\<close>\<close>

text \<open>
  C7. For an allowed schema, when the count query reports the total \<open>T\<close> and the page
  query returns \<open>k\<close> rows, the object that \<open>postgres_list_tables\<close> formats has
  \<open>count = k\<close>, \<open>total = T\<close>, \<open>offset\<close> as given, \<open>has_more = (T > offset + k)\<close>, and the
  property \<open>next_offset\<close> exactly when \<open>T > offset + k\<close>, with the value \<open>offset + k\<close>.
\<close>

theorem list_tables_pagination:
  assumes allowed: "allowed = [] \<or> S \<in> set allowed"
    and cnt: "db_query pool [] (COUNT_TABLES_SQL, [PString S]) = Inr countResult"
    and row0: "rows countResult = row0 # others"
    and total: "parseInt (total_of pool row0) = Some T"
    and page: "db_query pool [] (LIST_TABLES_SQL, [PString S, PNumber lim, PNumber off]) =
                 Inr result"
    and k: "k = int (length (rows result))"
  shows "field_of (fst (postgres_list_tables_data pool allowed S lim off)) ''count'' =
           Some (JNum (Some k)) \<and>
         field_of (fst (postgres_list_tables_data pool allowed S lim off)) ''total'' =
           Some (JNum (Some T)) \<and>
         field_of (fst (postgres_list_tables_data pool allowed S lim off)) ''offset'' =
           Some (JNum (Some off)) \<and>
         field_of (fst (postgres_list_tables_data pool allowed S lim off)) ''has_more'' =
           Some (JBool (T > off + k)) \<and>
         field_of (fst (postgres_list_tables_data pool allowed S lim off)) ''next_offset'' =
           (if T > off + k then Some (JNum (Some (off + k))) else None) \<and>
         (\<exists>data. fst (postgres_list_tables_data pool allowed S lim off) = Inr data \<and>
            fst (postgres_list_tables pool allowed stringify S lim off) =
              Inr (formatResult stringify data))"
  using assms
  by (auto simp: postgres_list_tables_def postgres_list_tables_data_def field_of_def
      respond_def io_assert_def assert_allowed io_bind_ok io_bind_throw pool_query_def
      io_throw_def io_return_def gt_def Let_def)

theorem list_tables_pagination_witness:
  "field_of (fst (postgres_list_tables_data
      \<lparr>db_query = (\<lambda>session stmt. if length (snd stmt) = 1
           then Inr \<lparr>rows = [''5''], field_names = [''total'']\<rparr>
           else Inr \<lparr>rows = [''accounts'', ''orders''], field_names = [''table_name'']\<rparr>),
       db_connect = None, total_of = (\<lambda>r. r)\<rparr> [] ''public'' 2 0)) ''count'' =
     Some (JNum (Some 2)) \<and>
   field_of (fst (postgres_list_tables_data
      \<lparr>db_query = (\<lambda>session stmt. if length (snd stmt) = 1
           then Inr \<lparr>rows = [''5''], field_names = [''total'']\<rparr>
           else Inr \<lparr>rows = [''accounts'', ''orders''], field_names = [''table_name'']\<rparr>),
       db_connect = None, total_of = (\<lambda>r. r)\<rparr> [] ''public'' 2 0)) ''total'' =
     Some (JNum (Some 5)) \<and>
   field_of (fst (postgres_list_tables_data
      \<lparr>db_query = (\<lambda>session stmt. if length (snd stmt) = 1
           then Inr \<lparr>rows = [''5''], field_names = [''total'']\<rparr>
           else Inr \<lparr>rows = [''accounts'', ''orders''], field_names = [''table_name'']\<rparr>),
       db_connect = None, total_of = (\<lambda>r. r)\<rparr> [] ''public'' 2 0)) ''has_more'' =
     Some (JBool True) \<and>
   field_of (fst (postgres_list_tables_data
      \<lparr>db_query = (\<lambda>session stmt. if length (snd stmt) = 1
           then Inr \<lparr>rows = [''5''], field_names = [''total'']\<rparr>
           else Inr \<lparr>rows = [''accounts'', ''orders''], field_names = [''table_name'']\<rparr>),
       db_connect = None, total_of = (\<lambda>r. r)\<rparr> [] ''public'' 2 0)) ''next_offset'' =
     Some (JNum (Some 2))"
proof -
  let ?pool = "\<lparr>db_query = (\<lambda>session stmt. if length (snd stmt) = 1
           then Inr \<lparr>rows = [''5''], field_names = [''total'']\<rparr>
           else Inr \<lparr>rows = [''accounts'', ''orders''], field_names = [''table_name'']\<rparr>),
       db_connect = None, total_of = (\<lambda>r. r)\<rparr>"
  have five: "parseInt (total_of ?pool ''5'') = Some 5"
    using parseInt_digits [of "''5''"]
    by (simp add: is_digit_def radix_value_def digit_value_def code_def)
  have cnt: "db_query ?pool [] (COUNT_TABLES_SQL, [PString ''public'']) =
               Inr \<lparr>rows = [''5''], field_names = [''total'']\<rparr>"
    by simp
  have page: "db_query ?pool [] (LIST_TABLES_SQL, [PString ''public'', PNumber 2, PNumber 0]) =
               Inr \<lparr>rows = [''accounts'', ''orders''], field_names = [''table_name'']\<rparr>"
    by simp
  show ?thesis
    using list_tables_pagination [of "[]" "''public''" ?pool
        "\<lparr>rows = [''5''], field_names = [''total'']\<rparr>" "''5''" "[]" 5 2 0
        "\<lparr>rows = [''accounts'', ''orders''], field_names = [''table_name'']\<rparr>" 2
        "\<lambda>data. ''{}''",
        OF _ cnt _ five page]
    by simp
qed

subsection \<open>The matcher on the patterns of the handler\<close>

lemma canon_code_upper:
  "65 \<le> canonicalize c \<Longrightarrow> canonicalize c \<le> 90 \<Longrightarrow>
   is_word c \<and> \<not> is_space c \<and> \<not> is_digit c"
  using code_less [of c]
  by (auto simp: canonicalize_def is_word_def is_space_def is_digit_def split: if_splits)



lemma concat_map_Nil: "(\<And>x. x \<in> set xs \<Longrightarrow> f x = []) \<Longrightarrow> concat (map f xs) = []"
  by (induction xs) auto

lemma plus_ends_Nil: "a = [] \<or> \<not> in_cls k (hd a) \<Longrightarrow> plus_ends k (rb, a) = []"
  by (cases a) auto

lemma plus_ends_Cons:
  "a \<noteq> [] \<Longrightarrow> in_cls k (hd a) \<Longrightarrow>
   \<exists>rest. plus_ends k (rb, a) =
            (rev (takeWhile (in_cls k) a) @ rb, dropWhile (in_cls k) a) # rest \<and>
          (\<forall>e \<in> set rest. snd e \<noteq> [] \<and> in_cls k (hd (snd e)))"
proof (induction a arbitrary: rb)
  case Nil
  then show ?case by simp
next
  case (Cons c cs)
  then have c: "in_cls k c" by simp
  show ?case
  proof (cases "cs \<noteq> [] \<and> in_cls k (hd cs)")
    case True
    with Cons.IH [of "c # rb"] obtain rest where
      r: "plus_ends k (c # rb, cs) =
            (rev (takeWhile (in_cls k) cs) @ c # rb, dropWhile (in_cls k) cs) # rest"
      and g: "\<forall>e \<in> set rest. snd e \<noteq> [] \<and> in_cls k (hd (snd e))"
      by blast
    have "plus_ends k (rb, c # cs) =
            (rev (takeWhile (in_cls k) (c # cs)) @ rb, dropWhile (in_cls k) (c # cs)) #
            (rest @ [(c # rb, cs)])"
      using c r by simp
    moreover have "\<forall>e \<in> set (rest @ [(c # rb, cs)]). snd e \<noteq> [] \<and> in_cls k (hd (snd e))"
      using g True by simp
    ultimately show ?thesis by blast
  next
    case False
    then have "plus_ends k (c # rb, cs) = []" by (simp add: plus_ends_Nil)
    moreover have "takeWhile (in_cls k) cs = []" "dropWhile (in_cls k) cs = cs"
      using False by (cases cs; simp)+
    ultimately have "plus_ends k (rb, c # cs) =
            [(rev (takeWhile (in_cls k) (c # cs)) @ rb, dropWhile (in_cls k) (c # cs))]"
      using c by simp
    then show ?thesis by simp
  qed
qed

lemma ends_Seq_Plus:
  assumes fail: "\<And>rb' a'. a' \<noteq> [] \<Longrightarrow> in_cls k (hd a') \<Longrightarrow> ends r (rb', a') = []"
  shows "ends (Seq (Plus k) r) (rb, a) =
           (if a \<noteq> [] \<and> in_cls k (hd a)
            then ends r (rev (takeWhile (in_cls k) a) @ rb, dropWhile (in_cls k) a) else [])"
proof (cases "a \<noteq> [] \<and> in_cls k (hd a)")
  case False
  then have "plus_ends k (rb, a) = []" by (simp add: plus_ends_Nil)
  with False show ?thesis by auto
next
  case True
  then obtain rest where
    r: "plus_ends k (rb, a) = (rev (takeWhile (in_cls k) a) @ rb, dropWhile (in_cls k) a) # rest"
    and g: "\<forall>e \<in> set rest. snd e \<noteq> [] \<and> in_cls k (hd (snd e))"
    using plus_ends_Cons [of a k rb] by blast
  let ?f = "\<lambda>(c1, caps1). map (\<lambda>(c2, caps2). (c2, caps1 @ caps2)) (ends r c1)"
  have "concat (map ?f (map (\<lambda>e. (e, [])) rest)) = []"
  proof (rule concat_map_Nil)
    fix x :: "cursor \<times> string list"
    assume "x \<in> set (map (\<lambda>e. (e, [])) rest)"
    then obtain e where e: "e \<in> set rest" and x: "x = (e, [])" by auto
    obtain rb' a' where ea: "e = (rb', a')" by (cases e)
    with g e have "a' \<noteq> []" "in_cls k (hd a')" by auto
    then have "ends r (rb', a') = []" by (rule fail)
    with x ea show "?f x = []" by simp
  qed
  moreover have "?f ((rev (takeWhile (in_cls k) a) @ rb, dropWhile (in_cls k) a), []) =
      ends r (rev (takeWhile (in_cls k) a) @ rb, dropWhile (in_cls k) a)"
    by (simp add: case_prod_unfold)
  ultimately show ?thesis using True r by simp
qed

lemma map_caps_Nil: "map (\<lambda>(c2, caps2). (c2, [] @ caps2)) xs = xs"
  by (induction xs) auto

lemma ends_Seq_WordB:
  "ends (Seq WordB r) (rb, a) = (if word_at rb \<noteq> word_at a then ends r (rb, a) else [])"
  by (simp add: map_caps_Nil)

lemma ends_Seq_Chars:
  "ends (Seq (Chars p) r) (rb, a) =
     (if length p \<le> length a \<and> map canonicalize (take (length p) a) = map canonicalize p
      then ends r (rev (take (length p) a) @ rb, drop (length p) a) else [])"
  by (auto simp: map_caps_Nil)

lemma ends_Plus_Digit_space:
  "a' \<noteq> [] \<Longrightarrow> in_cls Space (hd a') \<Longrightarrow> ends (Plus Digit) (rb', a') = []"
  by (cases a') (auto simp: digit_not_space)

lemma ends_Group_Plus_Digit_space:
  "a' \<noteq> [] \<Longrightarrow> in_cls Space (hd a') \<Longrightarrow> ends (Group (Plus Digit)) (rb', a') = []"
  by (cases a') (auto simp: digit_not_space)

lemma take_length_dropWhile: "take (length a - length (dropWhile P a)) a = takeWhile P a"
proof -
  have "length a = length (takeWhile P a) + length (dropWhile P a)"
    by (metis length_append takeWhile_dropWhile_id)
  then have "length a - length (dropWhile P a) = length (takeWhile P a)" by simp
  then show ?thesis by (simp add: takeWhile_eq_take [symmetric])
qed

lemma ends_Plus_Nil: "a = [] \<or> \<not> in_cls k (hd a) \<Longrightarrow> ends (Plus k) (rb, a) = []"
  by (simp add: plus_ends_Nil)

lemma in_cls_Space: "in_cls Space = is_space"
  by (rule ext) simp

lemma in_cls_Digit: "in_cls Digit = is_digit"
  by (rule ext) simp

lemma ends_LIMIT_tail:
  assumes sp: "\<And>rb a. ends (Seq (Plus Space) r) (rb, a) =
           (if a \<noteq> [] \<and> in_cls Space (hd a)
            then ends r (rev (takeWhile (in_cls Space) a) @ rb, dropWhile (in_cls Space) a) else [])"
    and nil: "\<And>rb a. a = [] \<or> \<not> in_cls Digit (hd a) \<Longrightarrow> ends r (rb, a) = []"
  shows "ends (Seq WordB (Seq (Chars ''LIMIT'') (Seq (Plus Space) r))) (rb, a) =
     (if limit_at (rb, a)
      then ends r (rev (takeWhile is_space (drop 5 a)) @ rev (take 5 a) @ rb,
                   dropWhile is_space (drop 5 a))
      else [])"
proof -
  define K where "K = map canonicalize ''LIMIT''"
  define c where "c = (rev (takeWhile is_space (drop 5 a)) @ rev (take 5 a) @ rb,
                   dropWhile is_space (drop 5 a))"
  have len: "length ''LIMIT'' = 5" by simp
  have step: "ends (Seq WordB (Seq (Chars ''LIMIT'') (Seq (Plus Space) r))) (rb, a) =
     (if word_at rb \<noteq> word_at a
      then if 5 \<le> length a \<and> map canonicalize (take 5 a) = K
           then if drop 5 a \<noteq> [] \<and> is_space (hd (drop 5 a)) then ends r c else []
           else []
      else [])"
    by (simp only: ends_Seq_WordB ends_Seq_Chars sp in_cls_Space len K_def c_def append_assoc)
  have lim: "limit_at (rb, a) =
     (word_at rb \<noteq> word_at a \<and> 5 \<le> length a \<and> map canonicalize (take 5 a) = K \<and>
      drop 5 a \<noteq> [] \<and> is_space (hd (drop 5 a)) \<and>
      dropWhile is_space (drop 5 a) \<noteq> [] \<and> is_digit (hd (dropWhile is_space (drop 5 a))))"
    by (simp only: limit_at_def prod.case K_def)
  have nil': "ends r c = []"
    if "dropWhile is_space (drop 5 a) = [] \<or> \<not> is_digit (hd (dropWhile is_space (drop 5 a)))"
    using that nil [of "dropWhile is_space (drop 5 a)"] by (simp only: c_def in_cls_Digit)
  show ?thesis
    unfolding step lim c_def [symmetric]
    using nil' by (cases "dropWhile is_space (drop 5 a) = [] \<or>
        \<not> is_digit (hd (dropWhile is_space (drop 5 a)))") (simp_all del: ends.simps)
qed

lemma ends_Plus_Cons:
  "a \<noteq> [] \<Longrightarrow> in_cls k (hd a) \<Longrightarrow>
   \<exists>rest. ends (Plus k) (rb, a) =
     ((rev (takeWhile (in_cls k) a) @ rb, dropWhile (in_cls k) a), []) # rest"
  using plus_ends_Cons [of a k rb] by auto

lemma tail_LIMIT_RE:
  "ends LIMIT_RE (rb, a) =
     (if limit_at (rb, a)
      then ends (Plus Digit) (rev (takeWhile is_space (drop 5 a)) @ rev (take 5 a) @ rb,
                   dropWhile is_space (drop 5 a))
      else [])"
proof -
  have "ends (Seq (Plus Space) (Plus Digit)) (rb, a) =
           (if a \<noteq> [] \<and> in_cls Space (hd a)
            then ends (Plus Digit) (rev (takeWhile (in_cls Space) a) @ rb, dropWhile (in_cls Space) a)
            else [])" for rb a
    by (rule ends_Seq_Plus) (rule ends_Plus_Digit_space)
  from ends_LIMIT_tail [of "Plus Digit", OF this ends_Plus_Nil]
  show ?thesis by (simp only: LIMIT_RE_def)
qed

lemma tail_LIMIT_GROUP_RE:
  "ends LIMIT_GROUP_RE (rb, a) =
     (if limit_at (rb, a)
      then ends (Group (Plus Digit)) (rev (takeWhile is_space (drop 5 a)) @ rev (take 5 a) @ rb,
                   dropWhile is_space (drop 5 a))
      else [])"
proof -
  have sp: "ends (Seq (Plus Space) (Group (Plus Digit))) (rb, a) =
           (if a \<noteq> [] \<and> in_cls Space (hd a)
            then ends (Group (Plus Digit))
                   (rev (takeWhile (in_cls Space) a) @ rb, dropWhile (in_cls Space) a)
            else [])" for rb a
    by (rule ends_Seq_Plus) (rule ends_Group_Plus_Digit_space)
  have nil: "ends (Group (Plus Digit)) (rb, a) = []" if "a = [] \<or> \<not> in_cls Digit (hd a)" for rb a
    using that by (simp add: plus_ends_Nil)
  from ends_LIMIT_tail [of "Group (Plus Digit)", OF sp nil]
  show ?thesis by (simp only: LIMIT_GROUP_RE_def)
qed

lemma ends_LIMIT_RE_Nil: "\<not> limit_at c \<Longrightarrow> ends LIMIT_RE c = []"
  by (cases c) (simp only: tail_LIMIT_RE if_False)

lemma ends_LIMIT_GROUP_RE_Nil: "\<not> limit_at c \<Longrightarrow> ends LIMIT_GROUP_RE c = []"
  by (cases c) (simp only: tail_LIMIT_GROUP_RE if_False)

lemma ends_LIMIT_RE_Cons:
  assumes "limit_at c"
  shows "\<exists>rest. ends LIMIT_RE c = (limit_end c, []) # rest"
proof -
  obtain rb a where c: "c = (rb, a)" by (cases c)
  define a2 where "a2 = dropWhile is_space (drop 5 a)"
  define rb2 where "rb2 = rev (takeWhile is_space (drop 5 a)) @ rev (take 5 a) @ rb"
  from assms c have d: "a2 \<noteq> []" "in_cls Digit (hd a2)"
    by (simp_all add: limit_at_def a2_def)
  from ends_Plus_Cons [OF d, of rb2] obtain rest where
    p: "ends (Plus Digit) (rb2, a2) =
          ((rev (takeWhile (in_cls Digit) a2) @ rb2, dropWhile (in_cls Digit) a2), []) # rest"
    by blast
  have e: "limit_end c = (rev (takeWhile (in_cls Digit) a2) @ rb2, dropWhile (in_cls Digit) a2)"
    by (simp add: c limit_end_def a2_def rb2_def in_cls_Digit)
  have "ends LIMIT_RE c = ends (Plus Digit) (rb2, a2)"
    using assms by (simp only: c tail_LIMIT_RE if_True a2_def rb2_def)
  with p e show ?thesis by simp
qed

lemma ends_LIMIT_GROUP_RE_Cons:
  assumes "limit_at c"
  shows "\<exists>rest. ends LIMIT_GROUP_RE c = (limit_end c, [limit_digits (snd c)]) # rest"
proof -
  obtain rb a where c: "c = (rb, a)" by (cases c)
  define a2 where "a2 = dropWhile is_space (drop 5 a)"
  define rb2 where "rb2 = rev (takeWhile is_space (drop 5 a)) @ rev (take 5 a) @ rb"
  from assms c have d: "a2 \<noteq> []" "in_cls Digit (hd a2)"
    by (simp_all add: limit_at_def a2_def)
  from ends_Plus_Cons [OF d, of rb2] obtain rest where
    p: "ends (Plus Digit) (rb2, a2) =
          ((rev (takeWhile (in_cls Digit) a2) @ rb2, dropWhile (in_cls Digit) a2), []) # rest"
    by blast
  have e: "limit_end c = (rev (takeWhile (in_cls Digit) a2) @ rb2, dropWhile (in_cls Digit) a2)"
    by (simp add: c limit_end_def a2_def rb2_def in_cls_Digit)
  have g: "limit_digits (snd c) = take (length a2 - length (dropWhile (in_cls Digit) a2)) a2"
    by (simp add: c limit_digits_def a2_def take_length_dropWhile in_cls_Digit)
  have "ends (Group (Plus Digit)) (rb2, a2) =
          (limit_end c, [limit_digits (snd c)]) #
          map (\<lambda>((rb', a'), caps). ((rb', a'), take (length a2 - length a') a2 # caps)) rest"
    unfolding ends.simps(4) p e g by simp
  moreover have "ends LIMIT_GROUP_RE c = ends (Group (Plus Digit)) (rb2, a2)"
    using assms by (simp only: c tail_LIMIT_GROUP_RE if_True a2_def rb2_def)
  ultimately show ?thesis by simp
qed

lemma ends_LIMIT_RE_iff: "ends LIMIT_RE c \<noteq> [] \<longleftrightarrow> limit_at c"
  using ends_LIMIT_RE_Nil [of c] ends_LIMIT_RE_Cons [of c] by auto

lemma exec_LIMIT_RE:
  "exec_from LIMIT_RE (rb, a) =
     (if limit_at (rb, a) then Some ((rb, a), limit_end (rb, a), [])
      else (case a of [] \<Rightarrow> None | x # xs \<Rightarrow> exec_from LIMIT_RE (x # rb, xs)))"
proof (cases "limit_at (rb, a)")
  case True
  from ends_LIMIT_RE_Cons [OF this] obtain rest where
    "ends LIMIT_RE (rb, a) = (limit_end (rb, a), []) # rest" by blast
  with True show ?thesis by (simp add: exec_from.simps del: ends.simps)
next
  case False
  then have "ends LIMIT_RE (rb, a) = []" by (rule ends_LIMIT_RE_Nil)
  with False show ?thesis by (simp add: exec_from.simps del: ends.simps)
qed

lemma exec_LIMIT_GROUP_RE:
  "exec_from LIMIT_GROUP_RE (rb, a) =
     (if limit_at (rb, a) then Some ((rb, a), limit_end (rb, a), [limit_digits a])
      else (case a of [] \<Rightarrow> None | x # xs \<Rightarrow> exec_from LIMIT_GROUP_RE (x # rb, xs)))"
proof (cases "limit_at (rb, a)")
  case True
  from ends_LIMIT_GROUP_RE_Cons [OF this] obtain rest where
    "ends LIMIT_GROUP_RE (rb, a) = (limit_end (rb, a), [limit_digits a]) # rest" by auto
  with True show ?thesis by (simp add: exec_from.simps del: ends.simps)
next
  case False
  then have "ends LIMIT_GROUP_RE (rb, a) = []" by (rule ends_LIMIT_GROUP_RE_Nil)
  with False show ?thesis by (simp add: exec_from.simps del: ends.simps)
qed


lemma exec_LIMIT_RE_Some:
  "exec_from LIMIT_RE (rb, a) = Some r \<Longrightarrow>
   \<exists>pre rest. a = pre @ rest \<and> r = ((rev pre @ rb, rest), limit_end (rev pre @ rb, rest), []) \<and>
     limit_at (rev pre @ rb, rest) \<and>
     (\<forall>n < length pre. \<not> limit_at (rev (take n a) @ rb, drop n a))"
proof (induction a arbitrary: rb)
  case Nil
  then have "limit_at (rb, [])" "r = ((rb, []), limit_end (rb, []), [])"
    by (subst (asm) exec_LIMIT_RE; simp split: if_splits)+
  then show ?case by simp
next
  case (Cons x xs)
  show ?case
  proof (cases "limit_at (rb, x # xs)")
    case True
    with Cons.prems have "r = ((rb, x # xs), limit_end (rb, x # xs), [])"
      by (subst (asm) exec_LIMIT_RE) simp
    with True show ?thesis by (intro exI [of _ "[]"] exI [of _ "x # xs"]) simp
  next
    case False
    with Cons.prems have "exec_from LIMIT_RE (x # rb, xs) = Some r"
      by (subst (asm) exec_LIMIT_RE) simp
    from Cons.IH [OF this] obtain pre rest where
      a: "xs = pre @ rest" and r: "r = ((rev pre @ x # rb, rest), limit_end (rev pre @ x # rb, rest), [])"
      and l: "limit_at (rev pre @ x # rb, rest)"
      and f: "\<forall>n < length pre. \<not> limit_at (rev (take n xs) @ x # rb, drop n xs)"
      by blast
    have "\<forall>n < length (x # pre). \<not> limit_at (rev (take n (x # xs)) @ rb, drop n (x # xs))"
    proof (intro allI impI)
      fix n assume n: "n < length (x # pre)"
      show "\<not> limit_at (rev (take n (x # xs)) @ rb, drop n (x # xs))"
      proof (cases n)
        case 0 with False show ?thesis by simp
      next
        case (Suc m)
        with n f show ?thesis by simp
      qed
    qed
    with a r l show ?thesis
      by (intro exI [of _ "x # pre"] exI [of _ rest]) simp
  qed
qed

lemma exec_LIMIT_GROUP_eq:
  "exec_from LIMIT_GROUP_RE (rb, a) =
     map_option (\<lambda>(st, en, caps). (st, en, [limit_digits (snd st)])) (exec_from LIMIT_RE (rb, a))"
proof (induction a arbitrary: rb)
  case Nil
  show ?case by (subst exec_LIMIT_GROUP_RE, subst exec_LIMIT_RE) simp
next
  case (Cons x xs)
  show ?case using Cons.IH [of "x # rb"]
    by (subst exec_LIMIT_GROUP_RE, subst exec_LIMIT_RE) simp
qed

lemma limit_at_parts:
  assumes "limit_at (rb, a)"
  shows "a = take 5 a @ takeWhile is_space (drop 5 a) @ limit_digits a @ snd (limit_end (rb, a))"
    and "\<not> word_at rb"
    and "map canonicalize (take 5 a) = map canonicalize ''LIMIT''"
    and "takeWhile is_space (drop 5 a) \<noteq> []"
    and "list_all is_space (takeWhile is_space (drop 5 a))"
    and "limit_digits a \<noteq> []"
    and "list_all is_digit (limit_digits a)"
    and "\<not> (snd (limit_end (rb, a)) \<noteq> [] \<and> is_digit (hd (snd (limit_end (rb, a)))))"
proof -
  show "a = take 5 a @ takeWhile is_space (drop 5 a) @ limit_digits a @ snd (limit_end (rb, a))"
    by (simp add: limit_digits_def limit_end_def)
  from assms have five: "5 \<le> length a" and k: "map canonicalize (take 5 a) = map canonicalize ''LIMIT''"
    and b: "word_at rb \<noteq> word_at a"
    by (simp_all add: limit_at_def)
  show "map canonicalize (take 5 a) = map canonicalize ''LIMIT''" by (rule k)
  from five obtain x xs where a: "a = x # xs" by (cases a) auto
  with k have "canonicalize x = 76" by (simp add: canonicalize_def code_def)
  then have "is_word x" using canon_code_upper [of x] by simp
  with a b show "\<not> word_at rb" by simp
  from assms show "takeWhile is_space (drop 5 a) \<noteq> []"
    by (cases "drop 5 a") (simp_all add: limit_at_def)
  show "list_all is_space (takeWhile is_space (drop 5 a))"
    by (simp add: list_all_iff) (meson set_takeWhileD)
  from assms show "limit_digits a \<noteq> []"
    by (cases "dropWhile is_space (drop 5 a)") (simp_all add: limit_at_def limit_digits_def)
  show "list_all is_digit (limit_digits a)"
    by (simp add: list_all_iff limit_digits_def) (meson set_takeWhileD)
  show "\<not> (snd (limit_end (rb, a)) \<noteq> [] \<and> is_digit (hd (snd (limit_end (rb, a)))))"
    using hd_dropWhile [of is_digit "dropWhile is_space (drop 5 a)"]
    by (simp only: limit_end_def prod.case snd_conv) blast
qed

subsection \<open>Limit injection\<close>

lemma test_iff: "test r s \<longleftrightarrow> exec_from r ([], s) \<noteq> None"
  by (simp add: test_def)

lemma inject_limit_append:
  assumes "\<not> test LIMIT_RE (trim q)"
  shows "inject_limit q cap = trim q @ '' LIMIT '' @ show_nat (nat (min (max 1 cap) 100))"
proof -
  have "\<not> min (max 1 cap) 100 < 0" by simp
  with assms show ?thesis
    by (simp only: inject_limit_def Let_def show_number_def safe_limit_def option.case if_True
        if_False not_False_eq_True)
qed

lemma inject_limit_rewrite:
  assumes "test LIMIT_RE (trim q)"
  shows "\<exists>pre rest. trim q = pre @ rest \<and> limit_at (rev pre, rest) \<and>
     (\<forall>n < length pre. \<not> limit_at (rev (take n (trim q)), drop n (trim q))) \<and>
     (\<forall>cap. inject_limit q cap =
        pre @ ''LIMIT '' @ show_nat (nat (min (radix_value 10 (limit_digits rest)) 100)) @
        snd (limit_end (rev pre, rest)))"
proof -
  from assms obtain r where r: "exec_from LIMIT_RE ([], trim q) = Some r"
    by (auto simp: test_iff)
  from exec_LIMIT_RE_Some [OF r] obtain pre rest where
    s: "trim q = pre @ rest"
    and rr: "r = ((rev pre, rest), limit_end (rev pre, rest), [])"
    and l: "limit_at (rev pre, rest)"
    and f: "\<forall>n < length pre. \<not> limit_at (rev (take n (trim q)), drop n (trim q))"
    by auto
  obtain rb' a' where en: "limit_end (rev pre, rest) = (rb', a')"
    by (cases "limit_end (rev pre, rest)")
  have g: "exec_from LIMIT_GROUP_RE ([], trim q) =
             Some ((rev pre, rest), (rb', a'), [limit_digits rest])"
    by (simp only: exec_LIMIT_GROUP_eq r rr en option.map prod.case snd_conv)
  have ds: "limit_digits rest \<noteq> []" "\<forall>c \<in> set (limit_digits rest). is_digit c"
    using limit_at_parts(6,7) [OF l] by (simp_all add: list_all_iff)
  have p: "parseInt (limit_digits rest) = Some (radix_value 10 (limit_digits rest))"
    by (rule parseInt_digits [OF ds])
  have m: "match_re (trim q) LIMIT_GROUP_RE =
             Some [take (length rest - length a') rest, limit_digits rest]"
    by (simp only: match_re_def g option.case prod.case)
  have rp: "replace (trim q) LIMIT_RE t = pre @ t @ a'" for t
    by (simp only: replace_def r rr en option.case prod.case rev_rev_ident)
  have "inject_limit q cap =
        pre @ ''LIMIT '' @ show_nat (nat (min (radix_value 10 (limit_digits rest)) 100)) @ a'" for cap
    using assms radix_value_nonneg [of "limit_digits rest"]
    by (simp add: inject_limit_def Let_def m nth_opt_def parseInt_arg_def p Math_min_def rp
        show_number_def)
  then have "\<forall>cap. inject_limit q cap =
        pre @ ''LIMIT '' @ show_nat (nat (min (radix_value 10 (limit_digits rest)) 100)) @
        snd (limit_end (rev pre, rest))"
    by (simp only: en snd_conv) blast
  with s l f show ?thesis by blast
qed

lemma limit_at_matches: "matches_at LIMIT_RE s n \<longleftrightarrow> limit_at (rev (take n s), drop n s)"
  by (simp only: matches_at_def ends_LIMIT_RE_iff)

lemma final_query_ok: "validate_query q = Inr () \<Longrightarrow> final_query q cap = Inr (inject_limit q cap)"
  by (simp add: final_query_def)

lemma example_500:
  "final_query ''SELECT * FROM t LIMIT 500'' 5 = Inr ''SELECT * FROM t LIMIT 100''"
  by code_simp

text \<open>
  C1, as the code has it. When the trimmed query has a clause \<open>LIMIT <integer>\<close>, the
  final statement is the trimmed query with the whole first clause (keyword, white
  space and digits) replaced by \<open>LIMIT\<close>, one space and the smaller of the value of the
  clause and 100 in decimal; the requested cap plays no part. When it has none, the final
  statement is the trimmed query followed by \<open>LIMIT\<close> and the requested cap brought into
  the range from 1 to 100. In particular \<open>SELECT * FROM t LIMIT 500\<close> with cap 5 becomes
  \<open>SELECT * FROM t LIMIT 100\<close>.
\<close>

theorem inject_limit_first_clause:
  "(validate_query q = Inr () \<longrightarrow> final_query q cap = Inr (inject_limit q cap)) \<and>
   (test LIMIT_RE (trim q) \<longrightarrow>
      (\<exists>pre kw ws ds post.
          trim q = pre @ kw @ ws @ ds @ post \<and> limit_clause pre kw ws ds post \<and>
          (\<forall>n < length pre. \<not> matches_at LIMIT_RE (trim q) n) \<and>
          parseInt ds = Some (radix_value 10 ds) \<and>
          (\<forall>cap'. inject_limit q cap' =
             pre @ ''LIMIT '' @ show_nat (nat (min (radix_value 10 ds) 100)) @ post))) \<and>
   (\<not> test LIMIT_RE (trim q) \<longrightarrow>
      inject_limit q cap = trim q @ '' LIMIT '' @ show_nat (nat (min (max 1 cap) 100))) \<and>
   final_query ''SELECT * FROM t LIMIT 500'' 5 = Inr ''SELECT * FROM t LIMIT 100''"
proof (intro conjI impI)
  assume "validate_query q = Inr ()"
  then show "final_query q cap = Inr (inject_limit q cap)" by (rule final_query_ok)
next
  assume t: "test LIMIT_RE (trim q)"
  from inject_limit_rewrite [OF t] obtain pre rest where
    s: "trim q = pre @ rest" and l: "limit_at (rev pre, rest)"
    and f: "\<forall>n < length pre. \<not> limit_at (rev (take n (trim q)), drop n (trim q))"
    and i: "\<forall>cap. inject_limit q cap =
        pre @ ''LIMIT '' @ show_nat (nat (min (radix_value 10 (limit_digits rest)) 100)) @
        snd (limit_end (rev pre, rest))"
    by blast
  let ?kw = "take 5 rest" and ?ws = "takeWhile is_space (drop 5 rest)"
  let ?ds = "limit_digits rest" and ?post = "snd (limit_end (rev pre, rest))"
  note parts = limit_at_parts [OF l]
  have "trim q = pre @ ?kw @ ?ws @ ?ds @ ?post"
    using s parts(1) by simp
  moreover have "limit_clause pre ?kw ?ws ?ds ?post"
    unfolding limit_clause_def using parts(2-8) by blast
  moreover have "\<forall>n < length pre. \<not> matches_at LIMIT_RE (trim q) n"
    using f by (simp only: limit_at_matches)
  moreover have "parseInt ?ds = Some (radix_value 10 ?ds)"
    using parts(6,7) by (intro parseInt_digits) (simp_all add: list_all_iff)
  ultimately show "\<exists>pre kw ws ds post.
          trim q = pre @ kw @ ws @ ds @ post \<and> limit_clause pre kw ws ds post \<and>
          (\<forall>n < length pre. \<not> matches_at LIMIT_RE (trim q) n) \<and>
          parseInt ds = Some (radix_value 10 ds) \<and>
          (\<forall>cap'. inject_limit q cap' =
             pre @ ''LIMIT '' @ show_nat (nat (min (radix_value 10 ds) 100)) @ post)"
    using i by blast
next
  assume "\<not> test LIMIT_RE (trim q)"
  then show "inject_limit q cap = trim q @ '' LIMIT '' @ show_nat (nat (min (max 1 cap) 100))"
    by (rule inject_limit_append)
next
  show "final_query ''SELECT * FROM t LIMIT 500'' 5 = Inr ''SELECT * FROM t LIMIT 100''"
    by (rule example_500)
qed

theorem inject_limit_first_clause_witness:
  "validate_query ''SELECT * FROM t LIMIT 500'' = Inr () \<and>
   final_query ''SELECT * FROM t LIMIT 500'' 5 =
     Inr (inject_limit ''SELECT * FROM t LIMIT 500'' 5) \<and>
   test LIMIT_RE (trim ''SELECT * FROM t LIMIT 500'') \<and>
   (\<exists>pre kw ws ds post.
       trim ''SELECT * FROM t LIMIT 500'' = pre @ kw @ ws @ ds @ post \<and>
       limit_clause pre kw ws ds post \<and>
       (\<forall>cap'. inject_limit ''SELECT * FROM t LIMIT 500'' cap' =
          pre @ ''LIMIT '' @ show_nat (nat (min (radix_value 10 ds) 100)) @ post)) \<and>
   \<not> test LIMIT_RE (trim '' SELECT * FROM t '') \<and>
   inject_limit '' SELECT * FROM t '' 500 = ''SELECT * FROM t LIMIT 100''"
proof -
  note A = inject_limit_first_clause [of "''SELECT * FROM t LIMIT 500''" 5]
  note B = inject_limit_first_clause [of "'' SELECT * FROM t ''" 500]
  have v: "validate_query ''SELECT * FROM t LIMIT 500'' = Inr ()" by code_simp
  have t: "test LIMIT_RE (trim ''SELECT * FROM t LIMIT 500'')" by code_simp
  have n: "\<not> test LIMIT_RE (trim '' SELECT * FROM t '')" by code_simp
  have tr: "trim '' SELECT * FROM t '' = ''SELECT * FROM t''" by code_simp
  have sh: "show_nat (nat (min (max 1 500) 100)) = ''100''" by code_simp
  from A v have 1: "final_query ''SELECT * FROM t LIMIT 500'' 5 =
     Inr (inject_limit ''SELECT * FROM t LIMIT 500'' 5)" by blast
  from A t have 2: "\<exists>pre kw ws ds post.
       trim ''SELECT * FROM t LIMIT 500'' = pre @ kw @ ws @ ds @ post \<and>
       limit_clause pre kw ws ds post \<and>
       (\<forall>cap'. inject_limit ''SELECT * FROM t LIMIT 500'' cap' =
          pre @ ''LIMIT '' @ show_nat (nat (min (radix_value 10 ds) 100)) @ post)"
    by blast
  from B n have "inject_limit '' SELECT * FROM t '' 500 =
      trim '' SELECT * FROM t '' @ '' LIMIT '' @ show_nat (nat (min (max 1 500) 100))"
    by blast
  then have 3: "inject_limit '' SELECT * FROM t '' 500 = ''SELECT * FROM t LIMIT 100''"
    by (simp only: tr sh) simp
  from v 1 t 2 n 3 show ?thesis by blast
qed

text \<open>
  C1 as the specification states it, with only the numeric value replaced, fails on a
  clause that is not written \<open>LIMIT\<close>, one space, and a number without leading zeros: the
  handler writes the keyword in upper case where the specification's text keeps it.
\<close>

lemma rewrite_code_side: "inject_limit ''select 1 limit 5'' 7 = ''select 1 LIMIT 5''"
  by code_simp

lemma rewrite_spec_side: "spec_limit_rewrite (trim ''select 1 limit 5'') = ''select 1 limit 5''"
  by code_simp

theorem limit_rewrite_text_counterexample:
  "inject_limit ''select 1 limit 5'' 7 = ''select 1 LIMIT 5'' \<and>
   spec_limit_rewrite (trim ''select 1 limit 5'') = ''select 1 limit 5'' \<and>
   inject_limit ''select 1 limit 5'' 7 \<noteq> spec_limit_rewrite (trim ''select 1 limit 5'')"
  by (simp add: rewrite_code_side rewrite_spec_side)

subsection \<open>The values of the LIMIT clauses of a statement\<close>
















subsection \<open>The occurrences of the word LIMIT in a statement\<close>































subsection \<open>Only the first clause is rewritten\<close>









subsection \<open>The keyword check of the free-form query\<close>

lemma forbiddenKeywords_lettered: "\<forall>k \<in> set forbiddenKeywords. lettered k"
  by (simp add: forbiddenKeywords_def lettered_def canonicalize_def code_def)

lemma contextWords_lettered: "\<forall>w \<in> set contextWords. lettered w"
  by (simp add: contextWords_def lettered_def canonicalize_def code_def)

lemma matched_letters:
  assumes "map canonicalize u = map canonicalize p" and "lettered p"
  shows "u \<noteq> [] \<and> (\<forall>c \<in> set u. is_word c \<and> \<not> is_space c \<and> \<not> is_digit c)"
proof
  from assms show "u \<noteq> []" by (auto simp: lettered_def)
  show "\<forall>c \<in> set u. is_word c \<and> \<not> is_space c \<and> \<not> is_digit c"
  proof
    fix c assume "c \<in> set u"
    then have "canonicalize c \<in> set (map canonicalize u)" by simp
    then have "canonicalize c \<in> set (map canonicalize p)" by (simp only: assms(1))
    then obtain c' where "c' \<in> set p" "canonicalize c = canonicalize c'" by auto
    with assms(2) have "65 \<le> canonicalize c \<and> canonicalize c \<le> 90" by (simp add: lettered_def)
    then show "is_word c \<and> \<not> is_space c \<and> \<not> is_digit c" using canon_code_upper by blast
  qed
qed

lemma ends_Chars_iff:
  "ends (Chars p) (rb, a) \<noteq> [] \<longleftrightarrow>
     length p \<le> length a \<and> map canonicalize (take (length p) a) = map canonicalize p"
  by simp

lemma Chars_fails_on_space:
  assumes "lettered w" "a \<noteq> []" "is_space (hd a)"
  shows "ends (Chars w) (rb, a) = []"
proof (rule ccontr)
  assume "ends (Chars w) (rb, a) \<noteq> []"
  then have l: "length w \<le> length a" and m: "map canonicalize (take (length w) a) = map canonicalize w"
    by (simp_all only: ends_Chars_iff)
  from matched_letters [OF m assms(1)]
  have "take (length w) a \<noteq> []" "\<forall>c \<in> set (take (length w) a). \<not> is_space c" by simp_all
  moreover then have "hd a \<in> set (take (length w) a)"
    using assms(2) by (cases a; cases "length w") simp_all
  ultimately show False using assms(3) by blast
qed

lemma ends_Alt_Chars_set:
  "e \<in> set (ends (Alt (map Chars ws)) (rb, a)) \<longleftrightarrow>
     (\<exists>w \<in> set ws. length w \<le> length a \<and>
        map canonicalize (take (length w) a) = map canonicalize w \<and>
        e = ((rev (take (length w) a) @ rb, drop (length w) a), []))"
  by (induction ws) auto

lemma Group_WordB_list:
  "concat (map (\<lambda>(c1, caps1). map (\<lambda>(c2, caps2). (c2, caps1 @ caps2)) (ends WordB c1))
             (map (\<lambda>((rb', a'), caps). ((rb', a'), take (length a - length a') a # caps)) xs))
     \<noteq> [] \<longleftrightarrow>
   (\<exists>e \<in> set xs. word_at (fst (fst e)) \<noteq> word_at (snd (fst e)))"
  by (induction xs) auto

lemma ends_Group_WordB:
  "ends (Seq (Group r) WordB) (rb, a) \<noteq> [] \<longleftrightarrow>
     (\<exists>e \<in> set (ends r (rb, a)). word_at (fst (fst e)) \<noteq> word_at (snd (fst e)))"
  by (simp only: ends.simps(4,6) Group_WordB_list)

lemma ends_context_tail_iff:
  "ends context_tail (rb, a) \<noteq> [] \<longleftrightarrow>
     (\<exists>w \<in> set contextWords. length w \<le> length a \<and>
        map canonicalize (take (length w) a) = map canonicalize w \<and>
        \<not> word_at (drop (length w) a))"
proof -
  have "ends context_tail (rb, a) \<noteq> [] \<longleftrightarrow>
     (\<exists>e \<in> set (ends (Alt (map Chars contextWords)) (rb, a)).
        word_at (fst (fst e)) \<noteq> word_at (snd (fst e)))"
    unfolding context_tail_def by (rule ends_Group_WordB)
  also have "\<dots> \<longleftrightarrow>
     (\<exists>w \<in> set contextWords. length w \<le> length a \<and>
        map canonicalize (take (length w) a) = map canonicalize w \<and>
        word_at (rev (take (length w) a) @ rb) \<noteq> word_at (drop (length w) a))"
    using ends_Alt_Chars_set [of _ contextWords rb a] by (auto simp del: ends.simps) force+
  also have "\<dots> \<longleftrightarrow>
     (\<exists>w \<in> set contextWords. length w \<le> length a \<and>
        map canonicalize (take (length w) a) = map canonicalize w \<and>
        \<not> word_at (drop (length w) a))"
  proof -
    have "word_at (rev (take (length w) a) @ rb)"
      if "w \<in> set contextWords" "map canonicalize (take (length w) a) = map canonicalize w" for w
    proof -
      from that contextWords_lettered have lw: "lettered w" by blast
      from matched_letters [OF that(2) lw]
      have ne: "take (length w) a \<noteq> []" and wd: "\<forall>c \<in> set (take (length w) a). is_word c"
        by simp_all
      then obtain y ys where r: "rev (take (length w) a) = y # ys"
        by (cases "rev (take (length w) a)") auto
      then have "y \<in> set (rev (take (length w) a))" by simp
      then have "y \<in> set (take (length w) a)" by simp
      with wd r show ?thesis by simp
    qed
    then show ?thesis by blast
  qed
  finally show ?thesis .
qed

lemma context_tail_fails_on_space:
  assumes "a \<noteq> []" "in_cls Space (hd a)"
  shows "ends context_tail (rb, a) = []"
proof (rule ccontr)
  assume "ends context_tail (rb, a) \<noteq> []"
  then obtain w where w: "w \<in> set contextWords" "length w \<le> length a"
    "map canonicalize (take (length w) a) = map canonicalize w"
    by (auto simp only: ends_context_tail_iff)
  then have "ends (Chars w) (rb, a) \<noteq> []" by (simp only: ends_Chars_iff)
  moreover from w contextWords_lettered have "lettered w" by blast
  ultimately show False using Chars_fails_on_space [of w a rb] assms by simp
qed

lemma ends_forbidden_iff:
  assumes lk: "lettered keyword"
  shows "ends (forbidden_re keyword) (rb, a) \<noteq> [] \<longleftrightarrow> forbidden_at keyword (rb, a)"
proof -
  let ?n = "length keyword"
  let ?a1 = "drop ?n a" and ?rb1 = "rev (take ?n a) @ rb"
  let ?a2 = "dropWhile is_space ?a1" and ?rb2 = "rev (takeWhile is_space ?a1) @ ?rb1"
  have sp: "ends (Seq (Plus Space) context_tail) (rb', a') =
           (if a' \<noteq> [] \<and> in_cls Space (hd a')
            then ends context_tail (rev (takeWhile (in_cls Space) a') @ rb', dropWhile (in_cls Space) a')
            else [])" for rb' a'
    by (rule ends_Seq_Plus) (rule context_tail_fails_on_space)
  have re: "forbidden_re keyword =
      Seq WordB (Seq (Chars keyword) (Seq WordB (Seq (Plus Space) context_tail)))"
    by (simp add: forbidden_re_def context_tail_def)
  have step: "ends (forbidden_re keyword) (rb, a) =
     (if word_at rb \<noteq> word_at a
      then if ?n \<le> length a \<and> map canonicalize (take ?n a) = map canonicalize keyword
           then if word_at ?rb1 \<noteq> word_at ?a1
                then if ?a1 \<noteq> [] \<and> is_space (hd ?a1) then ends context_tail (?rb2, ?a2) else []
                else []
           else []
      else [])"
    by (simp only: re ends_Seq_WordB ends_Seq_Chars sp in_cls_Space append_assoc)
  show ?thesis
  proof (cases "?n \<le> length a \<and> map canonicalize (take ?n a) = map canonicalize keyword")
    case False
    then show ?thesis unfolding step forbidden_at_def prod.case by auto
  next
    case True
    from matched_letters [OF conjunct2 [OF True] lk]
    have ne: "take ?n a \<noteq> []" and wd: "\<forall>c \<in> set (take ?n a). is_word c" by simp_all
    from ne have "a \<noteq> []" by auto
    with ne have "hd a \<in> set (take ?n a)" by (cases a; cases ?n) simp_all
    with wd \<open>a \<noteq> []\<close> have wa: "word_at a" by (cases a) simp_all
    from ne obtain y ys where r: "rev (take ?n a) = y # ys" by (cases "rev (take ?n a)") auto
    then have "y \<in> set (rev (take ?n a))" by simp
    then have "y \<in> set (take ?n a)" by simp
    with wd r have w1: "word_at ?rb1" by simp
    have w2: "\<not> word_at ?a1" if "?a1 \<noteq> []" "is_space (hd ?a1)"
      using that by (cases ?a1) (simp_all add: space_not_word)
    show ?thesis
    proof (cases "?a1 \<noteq> [] \<and> is_space (hd ?a1)")
      case sp1: True
      with w2 have nw: "\<not> word_at ?a1" by blast
      have "ends (forbidden_re keyword) (rb, a) =
              (if \<not> word_at rb then ends context_tail (?rb2, ?a2) else [])"
        using True wa w1 nw sp1 by (simp add: step del: ends.simps)
      then have "ends (forbidden_re keyword) (rb, a) \<noteq> [] \<longleftrightarrow>
              \<not> word_at rb \<and> ends context_tail (?rb2, ?a2) \<noteq> []"
        by (simp del: ends.simps)
      also have "\<dots> \<longleftrightarrow> forbidden_at keyword (rb, a)"
        using True sp1 by (simp add: forbidden_at_def ends_context_tail_iff del: ends.simps)
      finally show ?thesis .
    next
      case False
      then have "ends (forbidden_re keyword) (rb, a) = []"
        by (auto simp: step simp del: ends.simps)
      moreover from False have "\<not> forbidden_at keyword (rb, a)"
        by (auto simp: forbidden_at_def)
      ultimately show ?thesis by simp
    qed
  qed
qed

lemma exec_from_iff:
  "exec_from r (rb, a) \<noteq> None \<longleftrightarrow>
     (\<exists>pre rest. a = pre @ rest \<and> ends r (rev pre @ rb, rest) \<noteq> [])"
proof (induction a arbitrary: rb)
  case Nil
  show ?case by (simp add: exec_from.simps split: list.splits)
next
  case (Cons x xs)
  show ?case
  proof (cases "ends r (rb, x # xs)")
    case (Cons e es)
    then have "exec_from r (rb, x # xs) \<noteq> None"
      by (simp add: exec_from.simps split: prod.splits)
    moreover have "\<exists>pre rest. x # xs = pre @ rest \<and> ends r (rev pre @ rb, rest) \<noteq> []"
      using Cons by (intro exI [of _ "[]"] exI [of _ "x # xs"]) simp
    ultimately show ?thesis by blast
  next
    case Nil
    then have "exec_from r (rb, x # xs) \<noteq> None \<longleftrightarrow> exec_from r (x # rb, xs) \<noteq> None"
      by (simp add: exec_from.simps)
    also have "\<dots> \<longleftrightarrow> (\<exists>pre rest. xs = pre @ rest \<and> ends r (rev pre @ x # rb, rest) \<noteq> [])"
      by (rule Cons.IH)
    also have "\<dots> \<longleftrightarrow> (\<exists>pre rest. x # xs = pre @ rest \<and> ends r (rev pre @ rb, rest) \<noteq> [])"
    proof
      assume "\<exists>pre rest. xs = pre @ rest \<and> ends r (rev pre @ x # rb, rest) \<noteq> []"
      then obtain pre rest where "xs = pre @ rest" "ends r (rev pre @ x # rb, rest) \<noteq> []" by blast
      then show "\<exists>pre rest. x # xs = pre @ rest \<and> ends r (rev pre @ rb, rest) \<noteq> []"
        by (intro exI [of _ "x # pre"] exI [of _ rest]) simp
    next
      assume "\<exists>pre rest. x # xs = pre @ rest \<and> ends r (rev pre @ rb, rest) \<noteq> []"
      then obtain pre rest where p: "x # xs = pre @ rest" "ends r (rev pre @ rb, rest) \<noteq> []" by blast
      with Nil have "pre \<noteq> []" by (cases pre) auto
      then obtain pre' where "pre = x # pre'" using p(1) by (cases pre) auto
      with p show "\<exists>pre rest. xs = pre @ rest \<and> ends r (rev pre @ x # rb, rest) \<noteq> []"
        by (intro exI [of _ pre'] exI [of _ rest]) simp
    qed
    finally show ?thesis .
  qed
qed

lemma test_split: "test r s \<longleftrightarrow> (\<exists>pre rest. s = pre @ rest \<and> ends r (rev pre, rest) \<noteq> [])"
  using exec_from_iff [of r "[]" s] by (simp add: test_def)

lemma takeWhile_nonempty: "a \<noteq> [] \<Longrightarrow> P (hd a) \<Longrightarrow> takeWhile P a \<noteq> []"
  by (cases a) simp_all

lemma forbidden_at_split:
  assumes lk: "lettered keyword"
  shows "(\<exists>pre rest. s = pre @ rest \<and> forbidden_at keyword (rev pre, rest)) \<longleftrightarrow>
         keyword_before_context keyword s"
proof
  assume "\<exists>pre rest. s = pre @ rest \<and> forbidden_at keyword (rev pre, rest)"
  then obtain pre rest where s: "s = pre @ rest" and f: "forbidden_at keyword (rev pre, rest)"
    by blast
  let ?n = "length keyword"
  let ?a1 = "drop ?n rest"
  let ?a2 = "dropWhile is_space ?a1"
  from f obtain w where nw: "\<not> word_at (rev pre)"
    and k: "map canonicalize (take ?n rest) = map canonicalize keyword"
    and a1: "?a1 \<noteq> []" "is_space (hd ?a1)"
    and w: "w \<in> set contextWords" "map canonicalize (take (length w) ?a2) = map canonicalize w"
      "\<not> word_at (drop (length w) ?a2)"
    unfolding forbidden_at_def prod.case by blast
  have "s = pre @ take ?n rest @ takeWhile is_space ?a1 @ take (length w) ?a2 @ drop (length w) ?a2"
    by (simp add: s)
  moreover have "takeWhile is_space ?a1 \<noteq> []" using a1 by (rule takeWhile_nonempty)
  moreover have "list_all is_space (takeWhile is_space ?a1)"
    by (simp add: list_all_iff) (meson set_takeWhileD)
  ultimately show "keyword_before_context keyword s"
    unfolding keyword_before_context_def using nw k w by blast
next
  assume "keyword_before_context keyword s"
  then obtain pre kw ws ctx post w where s: "s = pre @ kw @ ws @ ctx @ post"
    and nw: "\<not> word_at (rev pre)" and k: "map canonicalize kw = map canonicalize keyword"
    and ws: "ws \<noteq> []" "list_all is_space ws"
    and w: "w \<in> set contextWords" "map canonicalize ctx = map canonicalize w"
    and p: "\<not> word_at post"
    unfolding keyword_before_context_def by blast
  from k have "length (map canonicalize kw) = length (map canonicalize keyword)" by (rule arg_cong)
  then have lkw: "length kw = length keyword" by simp
  from w(2) have "length (map canonicalize ctx) = length (map canonicalize w)" by (rule arg_cong)
  then have lctx: "length ctx = length w" by simp
  from w(1) contextWords_lettered have "lettered w" by blast
  from matched_letters [OF w(2) this] have cne: "ctx \<noteq> []" and chd: "\<not> is_space (hd ctx)"
    by (cases ctx; simp)+
  have d1: "dropWhile is_space (ws @ ctx @ post) = ctx @ post"
  proof -
    have "dropWhile is_space (ws @ ctx @ post) = dropWhile is_space (ctx @ post)"
      using ws(2) by (simp add: list_all_iff dropWhile_append2)
    also have "\<dots> = ctx @ post" using cne chd by (cases ctx) simp_all
    finally show ?thesis .
  qed
  have h1: "is_space (hd (ws @ ctx @ post))" using ws by (cases ws) simp_all
  have tk: "take (length keyword) (kw @ ws @ ctx @ post) = kw"
    and dr: "drop (length keyword) (kw @ ws @ ctx @ post) = ws @ ctx @ post"
    and len: "length keyword \<le> length (kw @ ws @ ctx @ post)"
    by (simp_all add: lkw [symmetric])
  have ne: "ws @ ctx @ post \<noteq> []" using ws(1) by simp
  have ex: "\<exists>w' \<in> set contextWords. length w' \<le> length (ctx @ post) \<and>
      map canonicalize (take (length w') (ctx @ post)) = map canonicalize w' \<and>
      \<not> word_at (drop (length w') (ctx @ post))"
    using w p by (intro bexI [of _ w]) (simp_all add: lctx [symmetric])
  have "forbidden_at keyword (rev pre, kw @ ws @ ctx @ post)"
    unfolding forbidden_at_def prod.case tk dr d1
    using nw len k ne h1 ex by blast
  with s show "\<exists>pre rest. s = pre @ rest \<and> forbidden_at keyword (rev pre, rest)" by blast
qed

lemma test_forbidden_iff:
  assumes "lettered keyword"
  shows "test (forbidden_re keyword) s \<longleftrightarrow> keyword_before_context keyword s"
  unfolding test_split ends_forbidden_iff [OF assms] by (rule forbidden_at_split [OF assms])

lemma keyword_check_iff:
  "(\<exists>keyword \<in> set forbiddenKeywords. test (forbidden_re keyword) q) \<longleftrightarrow>
   (\<exists>keyword \<in> set forbiddenKeywords. keyword_before_context keyword q)"
  using forbiddenKeywords_lettered test_forbidden_iff by blast

lemma validate_after_prefix:
  assumes "startsWith (toLowerCase (trim q)) ''select'' \<or> startsWith (toLowerCase (trim q)) ''with''"
  shows "validate_query q =
     (case find (\<lambda>keyword. test (forbidden_re keyword) q) forbiddenKeywords of
        Some keyword \<Rightarrow> Inl (InvalidOperation (keyword_message keyword))
      | None \<Rightarrow> Inr ())"
  using assms by (auto simp: validate_query_def Let_def)

lemma validate_fails_iff:
  assumes "startsWith (toLowerCase (trim q)) ''select'' \<or> startsWith (toLowerCase (trim q)) ''with''"
  shows "(\<exists>m. validate_query q = Inl (InvalidOperation m)) \<longleftrightarrow>
           (\<exists>keyword \<in> set forbiddenKeywords. keyword_before_context keyword q)"
    and "validate_query q = Inr () \<longleftrightarrow>
           \<not> (\<exists>keyword \<in> set forbiddenKeywords. keyword_before_context keyword q)"
proof -
  let ?f = "find (\<lambda>keyword. test (forbidden_re keyword) q) forbiddenKeywords"
  have n: "?f = None \<longleftrightarrow> \<not> (\<exists>keyword \<in> set forbiddenKeywords. test (forbidden_re keyword) q)"
    by (auto simp: find_None_iff)
  show "(\<exists>m. validate_query q = Inl (InvalidOperation m)) \<longleftrightarrow>
           (\<exists>keyword \<in> set forbiddenKeywords. keyword_before_context keyword q)"
    unfolding keyword_check_iff [symmetric] validate_after_prefix [OF assms]
    using n by (cases ?f) auto
  show "validate_query q = Inr () \<longleftrightarrow>
           \<not> (\<exists>keyword \<in> set forbiddenKeywords. keyword_before_context keyword q)"
    unfolding keyword_check_iff [symmetric] validate_after_prefix [OF assms]
    using n by (cases ?f) auto
qed

lemma validate_fails_if:
  assumes "\<exists>keyword \<in> set forbiddenKeywords. keyword_before_context keyword q"
  shows "\<exists>m. validate_query q = Inl (InvalidOperation m)"
proof (cases "startsWith (toLowerCase (trim q)) ''select'' \<or> startsWith (toLowerCase (trim q)) ''with''")
  case True
  from validate_fails_iff(1) [OF True] assms show ?thesis by blast
next
  case False
  then show ?thesis by (simp add: validate_query_def Let_def)
qed

lemma delete_from_users: "validate_query ''DELETE FROM users'' = Inl (InvalidOperation PREFIX_MESSAGE)"
  by code_simp

lemma delete_date: "validate_query ''SELECT delete_date FROM logs'' = Inr ()"
  by code_simp

lemma delete_after_select_prefix: "startsWith (toLowerCase (trim ''SELECT 1; DELETE FROM users'')) ''select''"
  by code_simp
lemma delete_after_select_rejected: "validate_query ''SELECT 1; DELETE FROM users'' =
    Inl (InvalidOperation (keyword_message ''delete''))"
  by code_simp
lemma delete_date_prefix: "startsWith (toLowerCase (trim ''SELECT delete_date FROM logs'')) ''select''"
  by code_simp

lemma update_no_keyword:
  "find (\<lambda>keyword. test (forbidden_re keyword) ''UPDATE t SET x = 1'') forbiddenKeywords = None"
  by code_simp

lemma update_rejected: "validate_query ''UPDATE t SET x = 1'' = Inl (InvalidOperation PREFIX_MESSAGE)"
  by code_simp

text \<open>
  C6, as the code has it. For a query that passes the prefix check, validation fails
  with \<open>InvalidOperation\<close> exactly when one of the forbidden keywords occurs as a whole
  word, in any case, followed by white space and by one of the context words as a whole
  word, in any case. Such an occurrence makes validation fail whatever the prefix; a
  query that fails the prefix check fails validation without it. \<open>DELETE FROM users\<close>
  fails validation and \<open>SELECT delete_date FROM logs\<close> passes it.
\<close>

theorem keyword_check_exact:
  "((startsWith (toLowerCase (trim q)) ''select'' \<or> startsWith (toLowerCase (trim q)) ''with'') \<longrightarrow>
      ((\<exists>m. validate_query q = Inl (InvalidOperation m)) \<longleftrightarrow>
         (\<exists>keyword \<in> set forbiddenKeywords. keyword_before_context keyword q)) \<and>
      (validate_query q = Inr () \<longleftrightarrow>
         \<not> (\<exists>keyword \<in> set forbiddenKeywords. keyword_before_context keyword q))) \<and>
   ((\<exists>keyword \<in> set forbiddenKeywords. keyword_before_context keyword q) \<longrightarrow>
      (\<exists>m. validate_query q = Inl (InvalidOperation m))) \<and>
   (\<exists>m. validate_query ''DELETE FROM users'' = Inl (InvalidOperation m)) \<and>
   validate_query ''SELECT delete_date FROM logs'' = Inr ()"
  using validate_fails_iff [of q] validate_fails_if [of q] delete_from_users delete_date
  by blast

theorem keyword_check_exact_witness:
  "startsWith (toLowerCase (trim ''SELECT 1; DELETE FROM users'')) ''select'' \<and>
   validate_query ''SELECT 1; DELETE FROM users'' =
     Inl (InvalidOperation (keyword_message ''delete'')) \<and>
   (\<exists>keyword \<in> set forbiddenKeywords.
      keyword_before_context keyword ''SELECT 1; DELETE FROM users'') \<and>
   startsWith (toLowerCase (trim ''SELECT delete_date FROM logs'')) ''select'' \<and>
   validate_query ''SELECT delete_date FROM logs'' = Inr () \<and>
   \<not> (\<exists>keyword \<in> set forbiddenKeywords.
      keyword_before_context keyword ''SELECT delete_date FROM logs'')"
proof -
  note A = keyword_check_exact [of "''SELECT 1; DELETE FROM users''"]
  note B = keyword_check_exact [of "''SELECT delete_date FROM logs''"]
  from A delete_after_select_prefix delete_after_select_rejected have 1: "\<exists>keyword \<in> set forbiddenKeywords.
      keyword_before_context keyword ''SELECT 1; DELETE FROM users''" by blast
  from B delete_date_prefix delete_date have 2: "\<not> (\<exists>keyword \<in> set forbiddenKeywords.
      keyword_before_context keyword ''SELECT delete_date FROM logs'')" by blast
  from delete_after_select_prefix delete_after_select_rejected 1 delete_date_prefix delete_date 2 show ?thesis by blast
qed

text \<open>
  C6 as the specification states it, failure exactly when a keyword is followed by a
  context word, fails on a query that the prefix check rejects: \<open>UPDATE t SET x = 1\<close>
  fails validation and has no forbidden keyword followed by a context word.
\<close>

theorem keyword_check_counterexample:
  "validate_query ''UPDATE t SET x = 1'' = Inl (InvalidOperation PREFIX_MESSAGE) \<and>
   \<not> (\<exists>keyword \<in> set forbiddenKeywords. keyword_before_context keyword ''UPDATE t SET x = 1'')"
proof -
  from update_no_keyword
  have "\<not> (\<exists>keyword \<in> set forbiddenKeywords. test (forbidden_re keyword) ''UPDATE t SET x = 1'')"
    by (auto simp: find_None_iff)
  then have "\<not> (\<exists>keyword \<in> set forbiddenKeywords.
      keyword_before_context keyword ''UPDATE t SET x = 1'')"
    using keyword_check_iff [of "''UPDATE t SET x = 1''"] by blast
  with update_rejected show ?thesis by blast
qed

end
